theory Spec2Isabelle
  imports Complex_Main "HOL-Library.Word"
begin

section \<open>Machine arithmetic of the filter\<close>

text \<open>
  The filter of \<^verbatim>\<open>imfilter.cpp\<close> computes in C++ \<^verbatim>\<open>float\<close> and \<^verbatim>\<open>double\<close>,
  converts between them and \<^verbatim>\<open>int\<close>, and casts the result to \<^verbatim>\<open>uint8_t\<close>.  The model
  takes IEEE 754 binary32 for \<^verbatim>\<open>float\<close> and binary64 for \<^verbatim>\<open>double\<close>, every operation
  rounded on its own to nearest, ties to even (no contraction into fused operations, no
  excess precision), and a 32-bit two's complement \<^verbatim>\<open>int\<close>.

  A floating-point value is its exact real value, an infinity, or a NaN.  The sign of a
  zero is not kept: the program never divides by a zero that could be negative (its only
  divisors are \<^verbatim>\<open>255.0f\<close>, \<^verbatim>\<open>2.0*s*s\<close> and \<^verbatim>\<open>2.0*b*b\<close> under \<^verbatim>\<open>s > 0\<close>, \<^verbatim>\<open>b > 0\<close>,
  and \<^verbatim>\<open>weights\<close>, a sum that starts at \<^verbatim>\<open>+0\<close>), and every other operation it uses treats
  both zeros alike.
\<close>

datatype fp = Fin real | PInf | NInf | NaN

text \<open>What C++ leaves undefined is an error value of the model.\<close>

datatype error =
    FloatToInt    \<comment> \<open>a floating value converted to an integer type that cannot hold it\<close>
  | IntOverflow   \<comment> \<open>signed \<^verbatim>\<open>int\<close> arithmetic leaving the 32-bit range\<close>
  | OutOfBounds   \<comment> \<open>\<^verbatim>\<open>data[y][x][k]\<close> read outside the pixel grid\<close>

text \<open>Sequencing: the first undefined step ends the computation.\<close>

definition bind_err :: "error + 'a \<Rightarrow> ('a \<Rightarrow> error + 'b) \<Rightarrow> error + 'b" where
  "bind_err m f = (case m of Inl e \<Rightarrow> Inl e | Inr v \<Rightarrow> f v)"

subsection \<open>Rounding to nearest, ties to even\<close>

fun log2n :: "nat \<Rightarrow> nat" where
  "log2n n = (if n < 2 then 0 else Suc (log2n (n div 2)))"

declare log2n.simps [simp del]

text \<open>\<open>ilog2 q\<close> is the binary exponent of a positive \<open>q\<close>: \<open>2 ^ ilog2 q \<le> q < 2 ^ (ilog2 q + 1)\<close>.\<close>

definition ilog2 :: "real \<Rightarrow> int" where
  "ilog2 q = (if 1 \<le> q then int (log2n (nat \<lfloor>q\<rfloor>))
              else - int (log2n (nat (\<lceil>1 / q\<rceil> - 1))) - 1)"

text \<open>The nearest integer, the even one of the two at a tie.\<close>

definition rne :: "real \<Rightarrow> int" where
  "rne q = (let f = \<lfloor>q\<rfloor>; d = q - of_int f in
            if d < 1 / 2 then f
            else if 1 / 2 < d then f + 1
            else if even f then f else f + 1)"

text \<open>
  Rounding to the format of precision \<open>p\<close> bits and largest exponent \<open>emax\<close>.  The
  smallest normal exponent is \<open>1 - emax\<close>; below it the spacing stays that of the
  subnormals.  \<open>round_mag\<close> rounds a positive magnitude to the nearest multiple of the
  spacing of its binade; \<open>round_to\<close> restores the sign, and a magnitude of
  \<open>2 ^ (emax + 1)\<close> or more is an infinity.
\<close>

definition round_mag :: "nat \<Rightarrow> int \<Rightarrow> real \<Rightarrow> real" where
  "round_mag p emax a =
     (let e = max (ilog2 a) (1 - emax);
          u = 2 powi (e - (int p - 1))
      in of_int (rne (a / u)) * u)"

definition round_to :: "nat \<Rightarrow> int \<Rightarrow> real \<Rightarrow> fp" where
  "round_to p emax q =
     (if q = 0 then Fin 0 else
      let r = round_mag p emax \<bar>q\<bar>
      in if 2 powi (emax + 1) \<le> r then (if 0 < q then PInf else NInf)
         else Fin (if 0 < q then r else - r))"

definition round32 :: "real \<Rightarrow> fp" where
  "round32 = round_to 24 127"

definition round64 :: "real \<Rightarrow> fp" where
  "round64 = round_to 53 1023"

subsection \<open>Operations\<close>

fun fp_neg :: "fp \<Rightarrow> fp" where
  "fp_neg (Fin x) = Fin (- x)"
| "fp_neg PInf = NInf"
| "fp_neg NInf = PInf"
| "fp_neg NaN = NaN"

fun fp_add :: "(real \<Rightarrow> fp) \<Rightarrow> fp \<Rightarrow> fp \<Rightarrow> fp" where
  "fp_add rd (Fin x) (Fin y) = rd (x + y)"
| "fp_add rd NaN _ = NaN"
| "fp_add rd _ NaN = NaN"
| "fp_add rd PInf NInf = NaN"
| "fp_add rd NInf PInf = NaN"
| "fp_add rd PInf _ = PInf"
| "fp_add rd _ PInf = PInf"
| "fp_add rd NInf _ = NInf"
| "fp_add rd _ NInf = NInf"

definition fp_sub :: "(real \<Rightarrow> fp) \<Rightarrow> fp \<Rightarrow> fp \<Rightarrow> fp" where
  "fp_sub rd a c = fp_add rd a (fp_neg c)"

fun fp_mul :: "(real \<Rightarrow> fp) \<Rightarrow> fp \<Rightarrow> fp \<Rightarrow> fp" where
  "fp_mul rd (Fin x) (Fin y) = rd (x * y)"
| "fp_mul rd NaN _ = NaN"
| "fp_mul rd _ NaN = NaN"
| "fp_mul rd (Fin x) PInf = (if x = 0 then NaN else if 0 < x then PInf else NInf)"
| "fp_mul rd (Fin x) NInf = (if x = 0 then NaN else if 0 < x then NInf else PInf)"
| "fp_mul rd PInf (Fin y) = (if y = 0 then NaN else if 0 < y then PInf else NInf)"
| "fp_mul rd NInf (Fin y) = (if y = 0 then NaN else if 0 < y then NInf else PInf)"
| "fp_mul rd PInf PInf = PInf"
| "fp_mul rd PInf NInf = NInf"
| "fp_mul rd NInf PInf = NInf"
| "fp_mul rd NInf NInf = PInf"

fun fp_div :: "(real \<Rightarrow> fp) \<Rightarrow> fp \<Rightarrow> fp \<Rightarrow> fp" where
  "fp_div rd (Fin x) (Fin y) =
     (if y = 0 then (if x = 0 then NaN else if 0 < x then PInf else NInf) else rd (x / y))"
| "fp_div rd NaN _ = NaN"
| "fp_div rd _ NaN = NaN"
| "fp_div rd (Fin x) PInf = Fin 0"
| "fp_div rd (Fin x) NInf = Fin 0"
| "fp_div rd PInf (Fin y) = (if 0 \<le> y then PInf else NInf)"
| "fp_div rd NInf (Fin y) = (if 0 \<le> y then NInf else PInf)"
| "fp_div rd PInf PInf = NaN"
| "fp_div rd PInf NInf = NaN"
| "fp_div rd NInf PInf = NaN"
| "fp_div rd NInf NInf = NaN"

text \<open>The comparisons \<^verbatim>\<open><\<close> and \<^verbatim>\<open><=\<close>: false as soon as one side is a NaN.\<close>

fun fp_lt :: "fp \<Rightarrow> fp \<Rightarrow> bool" where
  "fp_lt (Fin x) (Fin y) = (x < y)"
| "fp_lt NaN _ = False"
| "fp_lt _ NaN = False"
| "fp_lt _ NInf = False"
| "fp_lt PInf _ = False"
| "fp_lt NInf _ = True"
| "fp_lt _ PInf = True"

fun fp_le :: "fp \<Rightarrow> fp \<Rightarrow> bool" where
  "fp_le (Fin x) (Fin y) = (x \<le> y)"
| "fp_le NaN _ = False"
| "fp_le _ NaN = False"
| "fp_le NInf _ = True"
| "fp_le _ PInf = True"
| "fp_le _ NInf = False"
| "fp_le PInf _ = False"

subsection \<open>Conversions\<close>

definition INT_MIN :: int where
  "INT_MIN = - 2147483648"

definition INT_MAX :: int where
  "INT_MAX = 2147483647"

text \<open>The value of an \<^verbatim>\<open>int\<close> expression: undefined when it leaves the 32-bit range.\<close>

definition int_result :: "int \<Rightarrow> error + int" where
  "int_result v = (if INT_MIN \<le> v \<and> v \<le> INT_MAX then Inr v else Inl IntOverflow)"

definition int_to_float :: "int \<Rightarrow> fp" where
  "int_to_float i = round32 (of_int i)"

definition double_to_float :: "fp \<Rightarrow> fp" where
  "double_to_float d = (case d of Fin x \<Rightarrow> round32 x | _ \<Rightarrow> d)"

text \<open>Truncation toward zero, as the conversion of a floating value to an integer type does.\<close>

definition trunc :: "real \<Rightarrow> int" where
  "trunc x = (if 0 \<le> x then \<lfloor>x\<rfloor> else \<lceil>x\<rceil>)"

definition float_to_int :: "fp \<Rightarrow> error + int" where
  "float_to_int f =
     (case f of
        Fin x \<Rightarrow> if INT_MIN \<le> trunc x \<and> trunc x \<le> INT_MAX then Inr (trunc x) else Inl FloatToInt
      | _ \<Rightarrow> Inl FloatToInt)"

definition float_to_uint8 :: "fp \<Rightarrow> error + 8 word" where
  "float_to_uint8 f =
     (case f of
        Fin x \<Rightarrow> if 0 \<le> trunc x \<and> trunc x \<le> 255 then Inr (word_of_int (trunc x)) else Inl FloatToInt
      | _ \<Rightarrow> Inl FloatToInt)"

section \<open>Images and parameters\<close>

text \<open>
  Modelled from the spec: the class \<^verbatim>\<open>SimpleCanvas\<close> of \<^verbatim>\<open>simplecanvas/simplecanvas.h\<close> is
  not among the sources.  It is a grid of \<open>width \<times> height\<close> cells of three 8-bit samples,
  read as \<^verbatim>\<open>data[y][x][k]\<close>; \<^verbatim>\<open>setPixel\<close> stores the three samples of one cell and
  \<^verbatim>\<open>write\<close> hands the grid to the image sink under a file name.
\<close>

record SimpleCanvas =
  width :: int
  height :: int
  data :: "int \<Rightarrow> int \<Rightarrow> nat \<Rightarrow> 8 word"

definition setPixel :: "SimpleCanvas \<Rightarrow> int \<Rightarrow> int \<Rightarrow> 8 word \<Rightarrow> 8 word \<Rightarrow> 8 word \<Rightarrow> SimpleCanvas" where
  "setPixel c x y R G B =
     c\<lparr>data := (\<lambda>y' x' k.
          if y' = y \<and> x' = x \<and> k < 3 then (if k = 0 then R else if k = 1 then G else B)
          else data c y' x' k)\<rparr>"

record Parameters =
  inpath :: string
  outpath :: string
  s :: fp
  b :: fp
  nthreads :: int
  reps :: int

section \<open>The pixel filter\<close>

text \<open>The literals \<^verbatim>\<open>0.2125\<close>, \<^verbatim>\<open>0.7154\<close> and \<^verbatim>\<open>0.0721\<close>: the nearest doubles.\<close>

definition luma_r :: fp where
  "luma_r = round64 (2125 / 10000)"

definition luma_g :: fp where
  "luma_g = round64 (7154 / 10000)"

definition luma_b :: fp where
  "luma_b = round64 (721 / 10000)"

definition getIntensity :: "fp \<times> fp \<times> fp \<Rightarrow> fp" where
  "getIntensity rgb =
     double_to_float
       (fp_add round64
          (fp_add round64 (fp_mul round64 luma_r (fst rgb)) (fp_mul round64 luma_g (fst (snd rgb))))
          (fp_mul round64 luma_b (snd (snd rgb))))"

definition getColor01 :: "SimpleCanvas \<Rightarrow> int \<Rightarrow> int \<Rightarrow> error + (fp \<times> fp \<times> fp)" where
  "getColor01 imagein x y =
     (if 0 \<le> x \<and> x < width imagein \<and> 0 \<le> y \<and> y < height imagein then
        Inr (fp_div round32 (int_to_float (uint (data imagein y x 0))) (Fin 255),
             fp_div round32 (int_to_float (uint (data imagein y x 1))) (Fin 255),
             fp_div round32 (int_to_float (uint (data imagein y x 2))) (Fin 255))
      else Inl OutOfBounds)"

text \<open>
  The running sums of the filter: \<^verbatim>\<open>final[0..2]\<close> and \<^verbatim>\<open>weights\<close>.  The loops over the
  three channels \<^verbatim>\<open>k\<close> are written out.
\<close>

type_synonym accum = "(fp \<times> fp \<times> fp) \<times> fp"

text \<open>
  The body of the inner loop at column \<^verbatim>\<open>xs\<close> (a \<^verbatim>\<open>float\<close>) and row \<^verbatim>\<open>ys\<close> (an \<^verbatim>\<open>int\<close>).
  \<open>ex\<close> is the \<^verbatim>\<open>exp\<close> of the C library, which the repository does not define.
\<close>

definition spatial_term :: "int \<Rightarrow> int \<Rightarrow> fp \<Rightarrow> fp \<Rightarrow> int \<Rightarrow> error + fp" where
  "spatial_term x y sg xs ys =
     (if fp_lt (Fin 0) sg then
        bind_err (int_result (ys - y)) (\<lambda>dy.
        bind_err (int_result (dy * dy)) (\<lambda>dy2.
          let dx = fp_sub round32 xs (int_to_float x) in
          Inr (double_to_float
                 (fp_div round64
                    (fp_add round32 (fp_mul round32 dx dx) (int_to_float dy2))
                    (fp_mul round64 (fp_mul round64 (Fin 2) sg) sg)))))
      else Inr (Fin 0))"

definition intensity_term :: "fp \<Rightarrow> fp \<times> fp \<times> fp \<Rightarrow> fp \<times> fp \<times> fp \<Rightarrow> fp" where
  "intensity_term bg I1 I2 =
     (if fp_lt (Fin 0) bg then
        let diff = (fp_sub round32 (fst I1) (fst I2),
                    fp_sub round32 (fst (snd I1)) (fst (snd I2)),
                    fp_sub round32 (snd (snd I1)) (snd (snd I2)));
            diffI = getIntensity diff
        in double_to_float
             (fp_div round64 (fp_mul round32 diffI diffI)
                             (fp_mul round64 (fp_mul round64 (Fin 2) bg) bg))
      else Fin 0)"

definition accumulate :: "fp \<Rightarrow> fp \<times> fp \<times> fp \<Rightarrow> accum \<Rightarrow> accum" where
  "accumulate w I2 acc =
     ((fp_add round32 (fst (fst acc)) (fp_mul round32 w (fst I2)),
       fp_add round32 (fst (snd (fst acc))) (fp_mul round32 w (fst (snd I2))),
       fp_add round32 (snd (snd (fst acc))) (fp_mul round32 w (snd (snd I2)))),
      fp_add round32 (snd acc) w)"

definition window_step ::
  "(fp \<Rightarrow> fp) \<Rightarrow> SimpleCanvas \<Rightarrow> int \<Rightarrow> int \<Rightarrow> fp \<Rightarrow> fp \<Rightarrow> fp \<times> fp \<times> fp \<Rightarrow> fp \<Rightarrow> int \<Rightarrow> accum
     \<Rightarrow> error + accum" where
  "window_step ex imagein x y sg bg I1 xs ys acc =
     bind_err (float_to_int xs) (\<lambda>xi.
     bind_err (getColor01 imagein xi ys) (\<lambda>I2.
     bind_err (spatial_term x y sg xs ys) (\<lambda>d1.
       let d2 = intensity_term bg I1 I2;
           w = ex (fp_sub round32 (fp_neg d1) d2)
       in Inr (accumulate w I2 acc))))"

text \<open>The inner loop \<^verbatim>\<open>for (int ys = y1; ys <= y2; ys++)\<close>.\<close>

function yloop ::
  "(fp \<Rightarrow> fp) \<Rightarrow> SimpleCanvas \<Rightarrow> int \<Rightarrow> int \<Rightarrow> fp \<Rightarrow> fp \<Rightarrow> fp \<times> fp \<times> fp \<Rightarrow> fp \<Rightarrow> int \<Rightarrow> accum \<Rightarrow> int
     \<Rightarrow> error + accum" where
  "yloop ex imagein x y sg bg I1 xs y2 acc ys =
     (if ys \<le> y2 then
        (case window_step ex imagein x y sg bg I1 xs ys acc of
           Inl e \<Rightarrow> Inl e
         | Inr acc' \<Rightarrow> yloop ex imagein x y sg bg I1 xs y2 acc' (ys + 1))
      else Inr acc)"
  by pat_completeness auto
termination
  by (relation "measure (\<lambda>(ex, imagein, x, y, sg, bg, I1, xs, y2, acc, ys). nat (y2 + 1 - ys))") auto

declare yloop.simps [simp del]

text \<open>
  The outer loop \<^verbatim>\<open>for (float xs = x1; xs <= x2; xs++)\<close>.  Its counter is a \<^verbatim>\<open>float\<close>: the
  bound \<^verbatim>\<open>x2\<close> is converted for the comparison, and \<^verbatim>\<open>xs++\<close> adds one in binary32, which
  leaves \<^verbatim>\<open>xs\<close> unchanged from \<open>2 ^ 24\<close> on.  The loop need not end, so it is a partial
  function: \<open>None\<close> is the run that never returns.
\<close>

partial_function (option) xloop ::
  "(fp \<Rightarrow> fp) \<Rightarrow> SimpleCanvas \<Rightarrow> int \<Rightarrow> int \<Rightarrow> fp \<Rightarrow> fp \<Rightarrow> fp \<times> fp \<times> fp \<Rightarrow> int \<Rightarrow> int \<Rightarrow> int \<Rightarrow> accum \<Rightarrow> fp
     \<Rightarrow> (error + accum) option" where
  "xloop ex imagein x y sg bg I1 x2 y1 y2 acc xs =
     (if fp_le xs (int_to_float x2) then
        (case yloop ex imagein x y sg bg I1 xs y2 acc y1 of
           Inl e \<Rightarrow> Some (Inl e)
         | Inr acc' \<Rightarrow> xloop ex imagein x y sg bg I1 x2 y1 y2 acc' (fp_add round32 xs (Fin 1)))
      else Some (Inr acc))"

text \<open>The quantisation \<^verbatim>\<open>(uint8_t)(255*final[k]/weights)\<close> of one channel.\<close>

definition quantize :: "fp \<Rightarrow> fp \<Rightarrow> error + 8 word" where
  "quantize fin weights =
     float_to_uint8 (fp_div round32 (fp_mul round32 (int_to_float 255) fin) weights)"

definition quantize3 :: "accum \<Rightarrow> error + 8 word \<times> 8 word \<times> 8 word" where
  "quantize3 acc =
     bind_err (quantize (fst (fst acc)) (snd acc)) (\<lambda>o0.
     bind_err (quantize (fst (snd (fst acc))) (snd acc)) (\<lambda>o1.
     bind_err (quantize (snd (snd (fst acc))) (snd acc)) (\<lambda>o2.
       Inr (o0, o1, o2))))"

text \<open>
  The window \<^verbatim>\<open>[x1, x2] \<times> [y1, y2]\<close> of lines 112 to 116: the support \<^verbatim>\<open>(int)(s*3)\<close> and the
  clipping of the square around \<^verbatim>\<open>(x, y)\<close>.
\<close>

record window_bounds =
  win_x1 :: int
  win_x2 :: int
  win_y1 :: int
  win_y2 :: int

definition window :: "SimpleCanvas \<Rightarrow> int \<Rightarrow> int \<Rightarrow> fp \<Rightarrow> error + window_bounds" where
  "window imagein x y sg =
     bind_err (float_to_int (fp_mul round32 sg (int_to_float 3))) (\<lambda>support.
     bind_err (int_result (x - support)) (\<lambda>xlo.
     bind_err (int_result (x + support)) (\<lambda>xhi.
     bind_err (if xhi < width imagein then Inr xhi else int_result (width imagein - 1)) (\<lambda>x2.
     bind_err (int_result (y - support)) (\<lambda>ylo.
     bind_err (int_result (y + support)) (\<lambda>yhi.
     bind_err (if yhi < height imagein then Inr yhi else int_result (height imagein - 1)) (\<lambda>y2.
       Inr \<lparr>win_x1 = (if 0 < xlo then xlo else 0), win_x2 = x2,
            win_y1 = (if 0 < ylo then ylo else 0), win_y2 = y2\<rparr>)))))))"

text \<open>Lines 111 to 153: the sums over the window.\<close>

definition windowSums ::
  "(fp \<Rightarrow> fp) \<Rightarrow> SimpleCanvas \<Rightarrow> int \<Rightarrow> int \<Rightarrow> fp \<Rightarrow> fp \<Rightarrow> (error + accum) option" where
  "windowSums ex imagein x y sg bg =
     (case window imagein x y sg of
        Inl e \<Rightarrow> Some (Inl e)
      | Inr win \<Rightarrow>
          (case getColor01 imagein x y of
             Inl e \<Rightarrow> Some (Inl e)
           | Inr I1 \<Rightarrow>
               xloop ex imagein x y sg bg I1 (win_x2 win) (win_y1 win) (win_y2 win)
                 ((Fin 0, Fin 0, Fin 0), Fin 0) (int_to_float (win_x1 win))))"

definition bilateralFilterPixel ::
  "(fp \<Rightarrow> fp) \<Rightarrow> SimpleCanvas \<Rightarrow> int \<Rightarrow> int \<Rightarrow> fp \<Rightarrow> fp \<Rightarrow> (error + 8 word \<times> 8 word \<times> 8 word) option" where
  "bilateralFilterPixel ex imagein x y sg bg =
     (case windowSums ex imagein x y sg bg of
        None \<Rightarrow> None
      | Some (Inl e) \<Rightarrow> Some (Inl e)
      | Some (Inr acc) \<Rightarrow> Some (quantize3 acc))"

text \<open>
  The exponential of a C library that rounds correctly: the binary32 value nearest to
  \<open>e\<^sup>x\<close>.  The theorems below that hold for every \<open>ex\<close> with the stated properties hold
  for this one.
\<close>

definition expf_rn :: "fp \<Rightarrow> fp" where
  "expf_rn a = (case a of Fin x \<Rightarrow> round32 (exp x) | PInf \<Rightarrow> PInf | NInf \<Rightarrow> Fin 0 | NaN \<Rightarrow> NaN)"

section \<open>The driver\<close>

text \<open>The loop \<^verbatim>\<open>for (int x = 0; x < imagein.width; x++)\<close> over one row of the output.\<close>

function filterRow ::
  "(fp \<Rightarrow> fp) \<Rightarrow> SimpleCanvas \<Rightarrow> fp \<Rightarrow> fp \<Rightarrow> int \<Rightarrow> SimpleCanvas \<Rightarrow> int \<Rightarrow> (error + SimpleCanvas) option" where
  "filterRow ex imagein sg bg y imageout x =
     (if x < width imagein then
        (case bilateralFilterPixel ex imagein x y sg bg of
           None \<Rightarrow> None
         | Some (Inl e) \<Rightarrow> Some (Inl e)
         | Some (Inr pixel) \<Rightarrow>
             filterRow ex imagein sg bg y
               (setPixel imageout x y (fst pixel) (fst (snd pixel)) (snd (snd pixel))) (x + 1))
      else Some (Inr imageout))"
  by pat_completeness auto
termination
  by (relation "measure (\<lambda>(ex, imagein, sg, bg, y, imageout, x). nat (width imagein - x))") auto

declare filterRow.simps [simp del]

text \<open>The loop \<^verbatim>\<open>for (int y = 0; y < imagein.height; y++)\<close> over the rows.\<close>

function filterRows ::
  "(fp \<Rightarrow> fp) \<Rightarrow> SimpleCanvas \<Rightarrow> fp \<Rightarrow> fp \<Rightarrow> SimpleCanvas \<Rightarrow> int \<Rightarrow> (error + SimpleCanvas) option" where
  "filterRows ex imagein sg bg imageout y =
     (if y < height imagein then
        (case filterRow ex imagein sg bg y imageout 0 of
           None \<Rightarrow> None
         | Some (Inl e) \<Rightarrow> Some (Inl e)
         | Some (Inr imageout') \<Rightarrow> filterRows ex imagein sg bg imageout' (y + 1))
      else Some (Inr imageout))"
  by pat_completeness auto
termination
  by (relation "measure (\<lambda>(ex, imagein, sg, bg, imageout, y). nat (height imagein - y))") auto

declare filterRows.simps [simp del]

text \<open>One repetition: lines 170 to 175.\<close>

definition filterPass ::
  "(fp \<Rightarrow> fp) \<Rightarrow> SimpleCanvas \<Rightarrow> SimpleCanvas \<Rightarrow> fp \<Rightarrow> fp \<Rightarrow> (error + SimpleCanvas) option" where
  "filterPass ex imagein imageout sg bg = filterRows ex imagein sg bg imageout 0"

text \<open>
  The copy of lines 181 to 187: every cell \<^verbatim>\<open>data[y][x][k]\<close> of the input image within
  its \<open>width \<times> height\<close> grid is assigned from the output image.  Only the samples change,
  so the loops run on the sample grids.
\<close>

function copyRow ::
  "int \<Rightarrow> (int \<Rightarrow> int \<Rightarrow> nat \<Rightarrow> 8 word) \<Rightarrow> (int \<Rightarrow> int \<Rightarrow> nat \<Rightarrow> 8 word) \<Rightarrow> int \<Rightarrow> int
     \<Rightarrow> (int \<Rightarrow> int \<Rightarrow> nat \<Rightarrow> 8 word)" where
  "copyRow w din dout y x =
     (if x < w then
        copyRow w (\<lambda>y' x' k. if y' = y \<and> x' = x \<and> k < 3 then dout y x k else din y' x' k) dout y (x + 1)
      else din)"
  by pat_completeness auto
termination
  by (relation "measure (\<lambda>(w, din, dout, y, x). nat (w - x))") auto

declare copyRow.simps [simp del]

function copyRows ::
  "int \<Rightarrow> int \<Rightarrow> (int \<Rightarrow> int \<Rightarrow> nat \<Rightarrow> 8 word) \<Rightarrow> (int \<Rightarrow> int \<Rightarrow> nat \<Rightarrow> 8 word) \<Rightarrow> int
     \<Rightarrow> (int \<Rightarrow> int \<Rightarrow> nat \<Rightarrow> 8 word)" where
  "copyRows h w din dout y =
     (if y < h then copyRows h w (copyRow w din dout y 0) dout (y + 1) else din)"
  by pat_completeness auto
termination
  by (relation "measure (\<lambda>(h, w, din, dout, y). nat (h - y))") auto

declare copyRows.simps [simp del]

definition copyBack :: "SimpleCanvas \<Rightarrow> SimpleCanvas \<Rightarrow> SimpleCanvas" where
  "copyBack imagein imageout =
     imagein\<lparr>data := copyRows (height imagein) (width imagein) (data imagein) (data imageout) 0\<rparr>"

text \<open>The decimal digits that \<^verbatim>\<open>stream << rep\<close> writes for a repetition index.\<close>

fun decimal :: "nat \<Rightarrow> string" where
  "decimal n =
     (if n < 10 then [''0123456789'' ! n] else decimal (n div 10) @ [''0123456789'' ! (n mod 10)])"

declare decimal.simps [simp del]

text \<open>
  The state of the driver: the input image, the output image and the files handed to
  the image sink so far, oldest first.  The two images are distinct objects, as in
  \<^verbatim>\<open>main\<close>.
\<close>

type_synonym driver_state = "SimpleCanvas \<times> SimpleCanvas \<times> (string \<times> SimpleCanvas) list"

text \<open>
  The loop \<^verbatim>\<open>for (int rep = 0; rep < params.reps; rep++)\<close>.  Of the parameters it reads
  \<^verbatim>\<open>s\<close>, \<^verbatim>\<open>b\<close> and \<^verbatim>\<open>reps\<close>.
\<close>

function reploop ::
  "(fp \<Rightarrow> fp) \<Rightarrow> fp \<Rightarrow> fp \<Rightarrow> int \<Rightarrow> driver_state \<Rightarrow> int \<Rightarrow> (error + driver_state) option" where
  "reploop ex sg bg n st rep =
     (if rep < n then
        (case filterPass ex (fst st) (fst (snd st)) sg bg of
           None \<Rightarrow> None
         | Some (Inl e) \<Rightarrow> Some (Inl e)
         | Some (Inr imageout') \<Rightarrow>
             (if rep < n - 1 then
                reploop ex sg bg n
                  (copyBack (fst st) imageout', imageout',
                   snd (snd st) @ [(''rep'' @ decimal (nat rep) @ ''.png'', imageout')])
                  (rep + 1)
              else reploop ex sg bg n (fst st, imageout', snd (snd st)) (rep + 1)))
      else Some (Inr st))"
  by pat_completeness auto
termination
  by (relation "measure (\<lambda>(ex, sg, bg, n, st, rep). nat (n - rep))") auto

declare reploop.simps [simp del]

definition filterImage ::
  "(fp \<Rightarrow> fp) \<Rightarrow> SimpleCanvas \<Rightarrow> SimpleCanvas \<Rightarrow> Parameters \<Rightarrow> (error + driver_state) option" where
  "filterImage ex imagein imageout params =
     reploop ex (s params) (b params) (reps params) (imagein, imageout, []) 0"

section \<open>Predicates of the correctness statements\<close>

text \<open>A value that is not negative, an infinity included; and one that is not positive.\<close>

definition nonneg :: "fp \<Rightarrow> bool" where
  "nonneg a \<longleftrightarrow> fp_le (Fin 0) a"

definition nonpos :: "fp \<Rightarrow> bool" where
  "nonpos a \<longleftrightarrow> fp_le a (Fin 0)"

text \<open>
  What the statements below ask of the C library's \<^verbatim>\<open>exp\<close>: it returns 1 at 0, and at
  every argument that is not positive a binary32 value between 0 and 1.
\<close>

definition exp_like :: "(fp \<Rightarrow> fp) \<Rightarrow> bool" where
  "exp_like ex \<longleftrightarrow>
     ex (Fin 0) = Fin 1 \<and>
     (\<forall>a. nonpos a \<longrightarrow> (\<exists>w. ex a = Fin w \<and> 0 \<le> w \<and> w \<le> 1 \<and> round32 w = Fin w))"

text \<open>
  The invariant of the two loops: the sums are finite, each colour sum lies between 0 and
  the weight sum, the weight sum is at most \<open>2 ^ 25\<close> (from where on adding a weight of at
  most 1 no longer changes a binary32 value), and it is at least 1 once the target pixel
  has been visited.
\<close>

definition sums_ok :: "bool \<Rightarrow> accum \<Rightarrow> bool" where
  "sums_ok seen acc \<longleftrightarrow>
     (\<exists>f0 f1 f2 W. acc = ((Fin f0, Fin f1, Fin f2), Fin W)
        \<and> 0 \<le> f0 \<and> f0 \<le> W \<and> 0 \<le> f1 \<and> f1 \<le> W \<and> 0 \<le> f2 \<and> f2 \<le> W
        \<and> W \<le> 2 ^ 25 \<and> (seen \<longrightarrow> 1 \<le> W))"

text \<open>A colour of \<^verbatim>\<open>getColor01\<close>: three binary32 values between 0 and 1.\<close>

definition unit_color :: "fp \<times> fp \<times> fp \<Rightarrow> bool" where
  "unit_color I \<longleftrightarrow>
     (\<exists>c0 c1 c2. I = (Fin c0, Fin c1, Fin c2)
        \<and> 0 \<le> c0 \<and> c0 \<le> 1 \<and> round32 c0 = Fin c0
        \<and> 0 \<le> c1 \<and> c1 \<le> 1 \<and> round32 c1 = Fin c1
        \<and> 0 \<le> c2 \<and> c2 \<le> 1 \<and> round32 c2 = Fin c2)"


section \<open>Example inputs\<close>

text \<open>A one-pixel image, and parameters for one repetition.\<close>

definition img1 :: SimpleCanvas where
  "img1 = \<lparr>width = 1, height = 1, data = (\<lambda>y x k. if k = 0 then 10 else if k = 1 then 20 else 30)\<rparr>"

definition params0 :: Parameters where
  "params0 = \<lparr>inpath = ''in.png'', outpath = ''out.png'', s = Fin 1, b = Fin 1, nthreads = 1, reps = 1\<rparr>"

text \<open>A row of 129 white pixels.\<close>

definition row129 :: SimpleCanvas where
  "row129 = \<lparr>width = 129, height = 1, data = (\<lambda>y x k. 255)\<rparr>"


definition wide_b :: SimpleCanvas where
  "wide_b = \<lparr>width = 16777218, height = 1, data = (\<lambda>y x k. 0)\<rparr>"

section \<open>Evaluation rules\<close>

text \<open>Each loop unfolds one step at a time, once its test is decided.\<close>

lemma log2n_lt2: "n < 2 \<Longrightarrow> log2n n = 0" by (subst log2n.simps) simp
lemma log2n_ge2: "2 \<le> n \<Longrightarrow> log2n n = Suc (log2n (n div 2))" by (subst log2n.simps) simp

lemma yloop_done: "\<not> ys \<le> y2 \<Longrightarrow> yloop ex imagein x y sg bg I1 xs y2 acc ys = Inr acc"
  by (subst yloop.simps) simp
lemma yloop_step: "ys \<le> y2 \<Longrightarrow> yloop ex imagein x y sg bg I1 xs y2 acc ys =
  (case window_step ex imagein x y sg bg I1 xs ys acc of Inl e \<Rightarrow> Inl e | Inr acc' \<Rightarrow> yloop ex imagein x y sg bg I1 xs y2 acc' (ys + 1))"
  by (subst yloop.simps) simp
lemma xloop_done: "\<not> fp_le xs (int_to_float x2) \<Longrightarrow> xloop ex imagein x y sg bg I1 x2 y1 y2 acc xs = Some (Inr acc)"
  by (subst xloop.simps) simp
lemma xloop_step: "fp_le xs (int_to_float x2) \<Longrightarrow> xloop ex imagein x y sg bg I1 x2 y1 y2 acc xs =
   (case yloop ex imagein x y sg bg I1 xs y2 acc y1 of
           Inl e \<Rightarrow> Some (Inl e)
         | Inr acc' \<Rightarrow> xloop ex imagein x y sg bg I1 x2 y1 y2 acc' (fp_add round32 xs (Fin 1)))"
  by (subst xloop.simps) simp

lemma bind_err_Inl: "bind_err (Inl e) f = Inl e" by (simp add: bind_err_def)
lemma bind_err_Inr: "bind_err (Inr v) f = f v" by (simp add: bind_err_def)
lemma bind_err_weak_cong: "m = m' \<Longrightarrow> bind_err m f = bind_err m' f" by simp
lemmas eval_cong = bind_err_weak_cong let_weak_cong

lemmas fl_eval = round32_def round64_def round_to_def round_mag_def ilog2_def rne_def log2n_lt2 log2n_ge2 Let_def
lemmas conv_eval = int_to_float_def double_to_float_def trunc_def float_to_int_def float_to_uint8_def
  int_result_def INT_MIN_def INT_MAX_def bind_err_Inl bind_err_Inr fp_sub_def
lemmas px_eval = bilateralFilterPixel_def windowSums_def window_def getColor01_def window_step_def spatial_term_def
  intensity_term_def accumulate_def quantize_def quantize3_def getIntensity_def
  luma_r_def luma_g_def luma_b_def
  yloop_done yloop_step xloop_done xloop_step expf_rn_def


lemma filterRow_done: "\<not> x < width imagein \<Longrightarrow> filterRow ex imagein sg bg y imageout x = Some (Inr imageout)"
  by (subst filterRow.simps) simp
lemma filterRow_step: "x < width imagein \<Longrightarrow> filterRow ex imagein sg bg y imageout x =
        (case bilateralFilterPixel ex imagein x y sg bg of
           None \<Rightarrow> None
         | Some (Inl e) \<Rightarrow> Some (Inl e)
         | Some (Inr pixel) \<Rightarrow>
             filterRow ex imagein sg bg y
               (setPixel imageout x y (fst pixel) (fst (snd pixel)) (snd (snd pixel))) (x + 1))"
  by (subst filterRow.simps) simp
lemma filterRows_done: "\<not> y < height imagein \<Longrightarrow> filterRows ex imagein sg bg imageout y = Some (Inr imageout)"
  by (subst filterRows.simps) simp
lemma filterRows_step: "y < height imagein \<Longrightarrow> filterRows ex imagein sg bg imageout y =
        (case filterRow ex imagein sg bg y imageout 0 of
           None \<Rightarrow> None
         | Some (Inl e) \<Rightarrow> Some (Inl e)
         | Some (Inr imageout') \<Rightarrow> filterRows ex imagein sg bg imageout' (y + 1))"
  by (subst filterRows.simps) simp
lemma reploop_done: "\<not> rep < n \<Longrightarrow> reploop ex sg bg n st rep = Some (Inr st)"
  by (subst reploop.simps) simp
lemma reploop_last: "rep < n \<Longrightarrow> \<not> rep < n - 1 \<Longrightarrow> reploop ex sg bg n st rep =
        (case filterPass ex (fst st) (fst (snd st)) sg bg of
           None \<Rightarrow> None
         | Some (Inl e) \<Rightarrow> Some (Inl e)
         | Some (Inr imageout') \<Rightarrow> Some (Inr (fst st, imageout', snd (snd st))))"
  by (subst reploop.simps) (simp add: reploop_done split: option.splits sum.splits)
lemma reploop_step: "rep < n - 1 \<Longrightarrow> reploop ex sg bg n st rep =
        (case filterPass ex (fst st) (fst (snd st)) sg bg of
           None \<Rightarrow> None
         | Some (Inl e) \<Rightarrow> Some (Inl e)
         | Some (Inr imageout') \<Rightarrow>
                reploop ex sg bg n
                  (copyBack (fst st) imageout', imageout',
                   snd (snd st) @ [(''rep'' @ decimal (nat rep) @ ''.png'', imageout')])
                  (rep + 1))"
  by (subst reploop.simps) (simp split: option.splits sum.splits)

lemma copyRow_data:
  "copyRow w din dout y x y' x' k =
     (if y' = y \<and> x \<le> x' \<and> x' < w \<and> k < 3 then dout y' x' k else din y' x' k)"
proof (induction w din dout y x rule: copyRow.induct)
  case (1 w din dout y x)
  show ?case
  proof (cases "x < w")
    case True
    then show ?thesis
      by (subst copyRow.simps) (auto simp: 1)
  next
    case False
    then show ?thesis by (subst copyRow.simps) auto
  qed
qed

lemma copyRows_data:
  "copyRows h w din dout y y' x' k =
     (if y \<le> y' \<and> y' < h \<and> 0 \<le> x' \<and> x' < w \<and> k < 3 then dout y' x' k else din y' x' k)"
proof (induction h w din dout y rule: copyRows.induct)
  case (1 h w din dout y)
  show ?case
  proof (cases "y < h")
    case True
    then show ?thesis
      by (subst copyRows.simps) (auto simp: 1 copyRow_data)
  next
    case False
    then show ?thesis by (subst copyRows.simps) auto
  qed
qed

lemma decimal_0: "decimal 0 = ''0''"
  by (subst decimal.simps) simp

lemma copyBack_eq:
  "copyBack imagein imageout =
     imagein\<lparr>data := (\<lambda>y x k. if 0 \<le> y \<and> y < height imagein \<and> 0 \<le> x \<and> x < width imagein \<and> k < 3
                              then data imageout y x k else data imagein y x k)\<rparr>"
  by (simp add: copyBack_def copyRows_data fun_eq_iff)

lemmas drv_eval = filterImage_def filterPass_def filterRow_done filterRow_step filterRows_done
  filterRows_step reploop_done reploop_last reploop_step copyBack_eq decimal_0 setPixel_def

section \<open>Properties of the rounding\<close>

lemma log2n_bounds: "0 < n \<Longrightarrow> 2 ^ log2n n \<le> n \<and> n < 2 ^ Suc (log2n n)"
proof (induction n rule: log2n.induct)
  case (1 n)
  show ?case
  proof (cases "n < 2")
    case True
    with 1(2) show ?thesis by (simp add: log2n_lt2)
  next
    case False
    then have pos: "0 < n div 2" by simp
    from 1(1)[OF False pos] have ih: "2 ^ log2n (n div 2) \<le> n div 2" "n div 2 < 2 ^ Suc (log2n (n div 2))"
      by auto
    have eq: "log2n n = Suc (log2n (n div 2))" using False by (simp add: log2n_ge2)
    have "2 * (n div 2) \<le> n" "n < 2 * (n div 2) + 2" by presburger+
    with ih show ?thesis unfolding eq by simp
  qed
qed

lemma ilog2_bounds:
  assumes "0 < q"
  shows "2 powi (ilog2 q) \<le> q" and "q < 2 powi (ilog2 q + 1)"
proof -
  have "2 powi (ilog2 q) \<le> q \<and> q < 2 powi (ilog2 q + 1)"
  proof (cases "1 \<le> q")
    case True
    define n where "n = nat \<lfloor>q\<rfloor>"
    have n: "0 < n" "real n \<le> q" "q < real n + 1"
      using True by (auto simp: n_def)
    from log2n_bounds[OF n(1)] have "(2::real) ^ log2n n \<le> real n" "real n + 1 \<le> 2 ^ Suc (log2n n)"
      by (metis of_nat_le_iff of_nat_numeral of_nat_power, metis Suc_leI of_nat_Suc of_nat_le_iff of_nat_numeral of_nat_power add.commute plus_1_eq_Suc)
    then have lo: "(2::real) ^ log2n n \<le> q" and up: "q < 2 ^ Suc (log2n n)"
      using n by linarith+
    have il: "ilog2 q = int (log2n n)" using True by (simp add: ilog2_def n_def)
    have e1: "(2::real) powi (int (log2n n)) = 2 ^ log2n n"
      by (simp add: power_int_of_nat)
    have e2: "(2::real) powi (int (log2n n) + 1) = 2 ^ Suc (log2n n)"
      by (simp add: power_int_add)
    show ?thesis unfolding il e1 e2 using lo up by simp
  next
    case False
    define m where "m = nat (\<lceil>1 / q\<rceil> - 1)"
    have q1: "1 < 1 / q" using assms False by simp
    then have c2: "2 \<le> \<lceil>1 / q\<rceil>" by linarith
    have m: "0 < m" "real m < 1 / q" "1 / q \<le> real m + 1"
      using c2 by (auto simp: m_def) linarith+
    from log2n_bounds[OF m(1)] have b: "(2::real) ^ log2n m \<le> real m" "real m + 1 \<le> 2 ^ Suc (log2n m)"
      by (metis of_nat_le_iff of_nat_numeral of_nat_power, metis Suc_leI of_nat_Suc of_nat_le_iff of_nat_numeral of_nat_power add.commute plus_1_eq_Suc)
    have il: "ilog2 q = - int (log2n m) - 1" using False by (simp add: ilog2_def m_def)
    have "(2::real) ^ log2n m < 1 / q" using b m by linarith
    then have up: "q < 1 / 2 ^ log2n m" using assms
      by (simp add: field_simps)
    have "1 / q \<le> 2 ^ Suc (log2n m)" using b m by linarith
    then have lo: "1 / 2 ^ Suc (log2n m) \<le> q" using assms
      by (simp add: field_simps)
    have e1: "(2::real) powi (- int (log2n m) - 1) = 1 / 2 ^ Suc (log2n m)"
      by (simp add: power_int_diff power_int_minus field_simps)
    have e2: "(2::real) powi (- int (log2n m) - 1 + 1) = 1 / 2 ^ log2n m"
      by (simp add: power_int_minus field_simps)
    show ?thesis unfolding il e1 e2 using lo up by simp
  qed
  then show "2 powi (ilog2 q) \<le> q" and "q < 2 powi (ilog2 q + 1)" by simp_all
qed

lemma powi2_mono: "i \<le> j \<Longrightarrow> (2::real) powi i \<le> 2 powi j"
  by (rule power_int_increasing) simp_all

lemma powi2_less_iff: "(2::real) powi i < 2 powi j \<longleftrightarrow> i < j"
proof
  assume l: "(2::real) powi i < 2 powi j"
  show "i < j"
  proof (rule ccontr)
    assume "\<not> i < j"
    then have "(2::real) powi j \<le> 2 powi i" by (intro powi2_mono) simp
    with l show False by simp
  qed
next
  assume "i < j"
  then show "(2::real) powi i < 2 powi j" by (rule power_int_strict_increasing) simp
qed

lemma ilog2_unique:
  assumes "0 < q" "2 powi k \<le> q" "q < 2 powi (k + 1)"
  shows "ilog2 q = k"
proof -
  from ilog2_bounds[OF assms(1)] assms
  have "(2::real) powi k < 2 powi (ilog2 q + 1)" "(2::real) powi (ilog2 q) < 2 powi (k + 1)"
    by linarith+
  then show ?thesis by (simp add: powi2_less_iff)
qed

lemma ilog2_mono:
  assumes "0 < q" "q \<le> q'"
  shows "ilog2 q \<le> ilog2 q'"
proof -
  have "0 < q'" using assms by simp
  from ilog2_bounds[OF assms(1)] ilog2_bounds[OF this] assms(2)
  have "(2::real) powi (ilog2 q) < 2 powi (ilog2 q' + 1)" by linarith
  then show ?thesis by (simp add: powi2_less_iff)
qed

lemma rne_of_int [simp]: "rne (of_int n) = n"
  by (simp add: rne_def)

lemma rne_mono: "x \<le> y \<Longrightarrow> rne x \<le> rne y"
proof -
  assume xy: "x \<le> y"
  have fl: "\<lfloor>x\<rfloor> \<le> \<lfloor>y\<rfloor>" using xy by (rule floor_mono)
  show ?thesis
  proof (cases "\<lfloor>x\<rfloor> = \<lfloor>y\<rfloor>")
    case True
    then show ?thesis using xy by (auto simp: rne_def Let_def)
  next
    case False
    with fl have "\<lfloor>x\<rfloor> + 1 \<le> \<lfloor>y\<rfloor>" by simp
    moreover have "rne x \<le> \<lfloor>x\<rfloor> + 1" by (auto simp: rne_def Let_def)
    moreover have "\<lfloor>y\<rfloor> \<le> rne y" by (auto simp: rne_def Let_def)
    ultimately show ?thesis by linarith
  qed
qed

lemma rne_error: "\<bar>of_int (rne x) - x\<bar> \<le> 1 / 2"
  by (auto simp: rne_def Let_def)


lemma rne_mult_lower:
  assumes "0 < u" "of_int k * u \<le> q"
  shows "of_int k * u \<le> of_int (rne (q / u)) * u"
proof -
  have "of_int k \<le> q / u" using assms by (simp add: field_simps)
  from rne_mono[OF this] have "k \<le> rne (q / u)" by simp
  then have "(of_int k :: real) \<le> of_int (rne (q / u))" by simp
  then show ?thesis using assms(1) by (simp add: mult_right_mono)
qed

lemma rne_mult_upper:
  assumes "0 < u" "q \<le> of_int k * u"
  shows "of_int (rne (q / u)) * u \<le> of_int k * u"
proof -
  have "q / u \<le> of_int k" using assms by (simp add: field_simps)
  from rne_mono[OF this] have "rne (q / u) \<le> k" by simp
  then have "(of_int (rne (q / u)) :: real) \<le> of_int k" by simp
  then show ?thesis using assms(1) by (simp add: mult_right_mono)
qed

lemma powi2_split:
  assumes "0 < p"
  shows "(2::real) powi e = of_int (2 ^ (p - 1)) * 2 powi (e - (int p - 1))"
proof -
  have "(2::real) powi e = 2 powi (int (p - 1)) * 2 powi (e - (int p - 1))"
    using assms by (simp flip: power_int_add add: of_nat_diff)
  then show ?thesis by (simp add: power_int_of_nat)
qed

lemma powi2_split_up:
  shows "(2::real) powi (e + 1) = of_int (2 ^ p) * 2 powi (e - (int p - 1))"
proof -
  have "(2::real) powi (e + 1) = 2 powi (int p + (e - (int p - 1)))"
    by simp
  also have "\<dots> = 2 powi (int p) * 2 powi (e - (int p - 1))"
    by (rule power_int_add) simp
  finally show ?thesis by (simp add: power_int_of_nat)
qed

lemma round_mag_nonneg:
  assumes "0 < q"
  shows "0 \<le> round_mag p emax q"
proof -
  have "of_int 0 * 2 powi (max (ilog2 q) (1 - emax) - (int p - 1)) \<le> q"
    using assms by simp
  from rne_mult_lower[OF _ this] show ?thesis
    by (simp add: round_mag_def Let_def)
qed

lemma round_mag_lower:
  assumes "0 < q" "0 < p" "2 powi e \<le> q" "e = max (ilog2 q) (1 - emax)"
  shows "2 powi e \<le> round_mag p emax q"
proof -
  have "of_int (2 ^ (p - 1)) * 2 powi (e - (int p - 1)) \<le> q"
    using assms(3) powi2_split[OF assms(2), of e] by simp
  from rne_mult_lower[OF _ this] show ?thesis
    using powi2_split[OF assms(2), of e] by (simp add: round_mag_def Let_def assms(4))
qed

lemma round_mag_upper:
  assumes "0 < q" "e = max (ilog2 q) (1 - emax)"
  shows "round_mag p emax q \<le> 2 powi (e + 1)"
proof -
  have "q < 2 powi (ilog2 q + 1)" using ilog2_bounds[OF assms(1)] by simp
  also have "\<dots> \<le> 2 powi (e + 1)" by (rule powi2_mono) (simp add: assms(2))
  finally have "q \<le> of_int (2 ^ p) * 2 powi (e - (int p - 1))"
    using powi2_split_up[of e p] by simp
  from rne_mult_upper[OF _ this] show ?thesis
    using powi2_split_up[of e p] by (simp add: round_mag_def Let_def assms(2))
qed

lemma round_mag_mono:
  assumes "0 < q" "q \<le> q'" "0 < p"
  shows "round_mag p emax q \<le> round_mag p emax q'"
proof -
  define e where "e = max (ilog2 q) (1 - emax)"
  define e' where "e' = max (ilog2 q') (1 - emax)"
  have q': "0 < q'" using assms by simp
  have ee: "e \<le> e'" using ilog2_mono[OF assms(1,2)] by (simp add: e_def e'_def)
  show ?thesis
  proof (cases "e = e'")
    case True
    have "q / 2 powi (e - (int p - 1)) \<le> q' / 2 powi (e - (int p - 1))"
      using assms(2) by (simp add: divide_right_mono)
    from rne_mono[OF this] have "(of_int (rne (q / 2 powi (e - (int p - 1)))) :: real)
        \<le> of_int (rne (q' / 2 powi (e - (int p - 1))))" by simp
    then show ?thesis using True
      by (simp add: round_mag_def Let_def e_def[symmetric] e'_def[symmetric] mult_right_mono)
  next
    case False
    with ee have lt: "e + 1 \<le> e'" by simp
    then have "e' = ilog2 q'" by (auto simp: e'_def e_def)
    then have "2 powi e' \<le> q'" using ilog2_bounds(1)[OF q'] by simp
    from round_mag_lower[OF q' assms(3) this e'_def] have "2 powi e' \<le> round_mag p emax q'" .
    moreover have "round_mag p emax q \<le> 2 powi (e + 1)" by (rule round_mag_upper[OF assms(1) e_def])
    moreover have "(2::real) powi (e + 1) \<le> 2 powi e'" using lt by (rule powi2_mono)
    ultimately show ?thesis by linarith
  qed
qed

lemma round_to_pos:
  "0 < q \<Longrightarrow> round_to p emax q =
     (if 2 powi (emax + 1) \<le> round_mag p emax q then PInf else Fin (round_mag p emax q))"
  by (simp add: round_to_def Let_def)

lemma round_to_neg:
  "q < 0 \<Longrightarrow> round_to p emax q =
     (if 2 powi (emax + 1) \<le> round_mag p emax (- q) then NInf else Fin (- round_mag p emax (- q)))"
  by (simp add: round_to_def Let_def)

lemma round_to_0 [simp]: "round_to p emax 0 = Fin 0"
  by (simp add: round_to_def)

lemma round_to_mono:
  assumes "q \<le> q'" "0 < p"
  shows "fp_le (round_to p emax q) (round_to p emax q')"
proof -
  consider "0 < q" | "q' < 0" | "q \<le> 0" "0 \<le> q'" by linarith
  then show ?thesis
  proof cases
    case 1
    then have "0 < q'" using assms by simp
    with 1 round_mag_mono[OF 1 assms, where emax = emax] show ?thesis
      by (auto simp: round_to_pos)
  next
    case 2
    then have "q < 0" "0 < - q'" "- q' \<le> - q" using assms by simp_all
    with 2 round_mag_mono[OF \<open>0 < - q'\<close> \<open>- q' \<le> - q\<close> assms(2), where emax = emax] show ?thesis
      by (auto simp: round_to_neg)
  next
    case 3
    have a: "fp_le (round_to p emax q) (Fin 0)"
    proof (cases "q = 0")
      case True then show ?thesis by simp
    next
      case False
      with 3 have "q < 0" by simp
      then show ?thesis using round_mag_nonneg[of "- q" p emax] by (auto simp: round_to_neg)
    qed
    have b: "fp_le (Fin 0) (round_to p emax q')"
    proof (cases "q' = 0")
      case True then show ?thesis by simp
    next
      case False
      with 3 have "0 < q'" by simp
      then show ?thesis using round_mag_nonneg[of "q'" p emax] by (auto simp: round_to_pos)
    qed
    from a b show ?thesis
      by (cases "round_to p emax q"; cases "round_to p emax q'") auto
  qed
qed

lemma round_mag_fix:
  assumes "0 < r" "r = of_int k * 2 powi (e' - (int p - 1))" "max (ilog2 r) (1 - emax) \<le> e'"
  shows "round_mag p emax r = r"
proof -
  define e where "e = max (ilog2 r) (1 - emax)"
  define u :: real where "u = 2 powi (e - (int p - 1))"
  have u: "0 < u" by (simp add: u_def)
  define d where "d = nat (e' - e)"
  have "e' - (int p - 1) = int d + (e - (int p - 1))"
    using assms(3) by (simp add: e_def d_def)
  then have "(2::real) powi (e' - (int p - 1)) = 2 powi (int d + (e - (int p - 1)))"
    by (rule arg_cong)
  also have "\<dots> = 2 powi (int d) * u"
    unfolding u_def by (rule power_int_add) simp
  also have "\<dots> = 2 ^ d * u"
    by (simp only: power_int_of_nat)
  finally have "r = of_int k * (2 ^ d * u)"
    using assms(2) by simp
  then have r: "r = of_int (k * 2 ^ d) * u"
    by (simp add: mult.assoc)
  then have ru: "r / u = of_int (k * 2 ^ d)"
    using u by simp
  have "round_mag p emax r = of_int (rne (r / u)) * u"
    by (simp add: round_mag_def Let_def e_def u_def)
  also have "\<dots> = r" unfolding ru rne_of_int using r by simp
  finally show ?thesis .
qed

lemma round_mag_idem:
  assumes "0 < q" "0 < p" "0 < round_mag p emax q"
  shows "round_mag p emax (round_mag p emax q) = round_mag p emax q"
proof -
  define e where "e = max (ilog2 q) (1 - emax)"
  define r where "r = round_mag p emax q"
  have r0: "0 < r" using assms(3) by (simp add: r_def)
  have rk: "r = of_int (rne (q / 2 powi (e - (int p - 1)))) * 2 powi (e - (int p - 1))"
    by (simp add: r_def round_mag_def Let_def e_def)
  have up: "r \<le> 2 powi (e + 1)" unfolding r_def by (rule round_mag_upper[OF assms(1) e_def])
  have "round_mag p emax r = r"
  proof (cases "r < 2 powi (e + 1)")
    case True
    have "(2::real) powi (ilog2 r) < 2 powi (e + 1)"
      using ilog2_bounds(1)[OF r0] True by linarith
    then have "ilog2 r < e + 1"
      by (simp only: powi2_less_iff)
    then have "max (ilog2 r) (1 - emax) \<le> e" by (simp add: e_def)
    from round_mag_fix[OF r0 rk this] show ?thesis .
  next
    case False
    with up have req: "r = 2 powi (e + 1)" by simp
    have il: "ilog2 r = e + 1"
      by (rule ilog2_unique[OF r0]) (simp_all add: req powi2_less_iff)
    have a: "max (ilog2 r) (1 - emax) \<le> e + 1" by (simp add: il e_def)
    have b: "r = of_int (2 ^ (p - 1)) * 2 powi (e + 1 - (int p - 1))"
      unfolding req by (rule powi2_split[OF assms(2)])
    show ?thesis by (rule round_mag_fix[OF r0 b a])
  qed
  then show ?thesis by (simp add: r_def)
qed

lemma round_to_idem:
  assumes "round_to p emax q = Fin r" "0 < p"
  shows "round_to p emax r = Fin r"
proof -
  consider "q = 0" | "0 < q" | "q < 0" by linarith
  then show ?thesis
  proof cases
    case 1
    with assms show ?thesis by simp
  next
    case 2
    with assms(1) have r: "r = round_mag p emax q" "\<not> 2 powi (emax + 1) \<le> round_mag p emax q"
      by (auto simp: round_to_pos split: if_splits)
    show ?thesis
    proof (cases "r = 0")
      case True then show ?thesis by simp
    next
      case False
      with r round_mag_nonneg[OF 2, of p emax] have r0: "0 < r" by simp
      then have "round_mag p emax r = r" using round_mag_idem[OF 2 assms(2), of emax] r by simp
      then show ?thesis using r0 r by (simp add: round_to_pos)
    qed
  next
    case 3
    with assms(1) have r: "r = - round_mag p emax (- q)" "\<not> 2 powi (emax + 1) \<le> round_mag p emax (- q)"
      by (auto simp: round_to_neg split: if_splits)
    show ?thesis
    proof (cases "r = 0")
      case True then show ?thesis by simp
    next
      case False
      from 3 have q: "0 < - q" by simp
      with False r round_mag_nonneg[OF q, of p emax] have r0: "0 < - r" by simp
      then have "round_mag p emax (- r) = - r" using round_mag_idem[OF q assms(2), of emax] r by simp
      then show ?thesis using r0 r by (simp add: round_to_neg)
    qed
  qed
qed

lemma round_mag_error:
  assumes "0 < q" "1 - emax \<le> ilog2 q"
  shows "round_mag p emax q \<le> q * (1 + 2 powi (- int p))"
proof -
  define u :: real where "u = 2 powi (ilog2 q - (int p - 1))"
  have u: "0 < u" by (simp add: u_def)
  have e: "max (ilog2 q) (1 - emax) = ilog2 q" using assms(2) by simp
  have rm: "round_mag p emax q = of_int (rne (q / u)) * u"
    by (simp add: round_mag_def Let_def e u_def)
  have "of_int (rne (q / u)) \<le> q / u + 1 / 2" using rne_error[of "q / u"] by linarith
  then have "of_int (rne (q / u)) * u \<le> (q / u + 1 / 2) * u" using u by (simp add: mult_right_mono)
  also have "\<dots> = q + u / 2" using u by (simp add: field_simps)
  finally have a: "round_mag p emax q \<le> q + u / 2" by (simp add: rm)
  have "u / 2 = 2 powi (ilog2 q + (- int p))"
    unfolding u_def by (simp add: power_int_diff)
  also have "\<dots> = 2 powi (ilog2 q) * 2 powi (- int p)" by (rule power_int_add) simp
  also have "\<dots> \<le> q * 2 powi (- int p)"
    using ilog2_bounds(1)[OF assms(1)] by (simp add: mult_right_mono)
  finally show ?thesis using a by (simp add: algebra_simps)
qed

lemma round_to_fixed_bounds:
  assumes "round_to p emax q = Fin q" "0 < q"
  shows "2 powi (1 - emax - (int p - 1)) \<le> q" and "q < 2 powi (emax + 1)"
proof -
  define e where "e = max (ilog2 q) (1 - emax)"
  define u :: real where "u = 2 powi (e - (int p - 1))"
  have u: "0 < u" by (simp add: u_def)
  from assms have rm: "round_mag p emax q = q" and lim: "\<not> 2 powi (emax + 1) \<le> q"
    by (auto simp: round_to_pos split: if_splits)
  from lim show "q < 2 powi (emax + 1)" by simp
  have qk: "q = of_int (rne (q / u)) * u"
    using rm by (simp add: round_mag_def Let_def e_def u_def)
  have "0 < (of_int (rne (q / u)) :: real)"
  proof (rule ccontr)
    assume "\<not> 0 < (of_int (rne (q / u)) :: real)"
    then have "(of_int (rne (q / u)) :: real) * u \<le> 0"
      using u by (simp add: mult_le_0_iff)
    with qk assms(2) show False by simp
  qed
  then have "1 \<le> rne (q / u)" by simp
  then have "(1::real) \<le> of_int (rne (q / u))" by linarith
  then have "1 * u \<le> of_int (rne (q / u)) * u" using u by (intro mult_right_mono) simp_all
  with qk have "u \<le> q" by simp
  moreover have "2 powi (1 - emax - (int p - 1)) \<le> u"
    unfolding u_def by (rule powi2_mono) (simp add: e_def)
  ultimately show "2 powi (1 - emax - (int p - 1)) \<le> q" by linarith
qed

lemma round32_int_less:
  assumes "\<bar>n\<bar> < 2 ^ 24"
  shows "round32 (of_int n) = Fin (of_int n)"
proof -
  have pos: "round32 (of_int m) = Fin (of_int m)" if m: "0 < m" "m < 2 ^ 24" for m :: int
  proof -
    have m0: "0 < (of_int m :: real)" using m by simp
    have "(of_int m :: real) < of_int (2 ^ 24)" using m(2) by (simp only: of_int_less_iff)
    then have "(of_int m :: real) < 2 powi 24" by simp
    then have "(2::real) powi (ilog2 (of_int m)) < 2 powi 24"
      using ilog2_bounds(1)[OF m0] by linarith
    then have "ilog2 (of_int m) < 24"
      by (simp only: powi2_less_iff)
    then have a: "max (ilog2 (of_int m)) (1 - 127) \<le> 23" by simp
    have b: "(of_int m :: real) = of_int m * 2 powi (23 - (int 24 - 1))" by simp
    have "round_mag 24 127 (of_int m) = of_int m"
      by (rule round_mag_fix[OF m0 b a])
    moreover have "(2::real) powi 24 \<le> 2 powi (127 + 1)"
      by (rule powi2_mono) simp
    then have "\<not> (2::real) powi (127 + 1) \<le> of_int m"
      using \<open>(of_int m :: real) < 2 powi 24\<close> by linarith
    ultimately show ?thesis using m0 by (simp add: round32_def round_to_pos)
  qed
  consider "n = 0" | "0 < n" | "n < 0" by linarith
  then show ?thesis
  proof cases
    case 1 then show ?thesis by (simp add: round32_def)
  next
    case 2 with assms pos show ?thesis by simp
  next
    case 3
    with assms have "0 < - n" "- n < 2 ^ 24" by simp_all
    from pos[OF this] have "round_to 24 127 (of_int (- n)) = Fin (of_int (- n))" by (simp add: round32_def)
    then show ?thesis using 3 by (auto simp: round32_def round_to_pos round_to_neg split: if_splits)
  qed
qed


lemma round32_int:
  assumes "\<bar>n\<bar> \<le> 2 ^ 24"
  shows "round32 (of_int n) = Fin (of_int n)"
proof -
  consider "\<bar>n\<bar> < 2 ^ 24" | "n = 2 ^ 24" | "n = - (2 ^ 24)" using assms by linarith
  then show ?thesis
  proof cases
    case 1 then show ?thesis by (rule round32_int_less)
  next
    case 2 then show ?thesis by (simp add: fl_eval)
  next
    case 3 then show ?thesis by (simp add: fl_eval)
  qed
qed

lemma round_to_pow2:
  assumes "0 < p" "1 - emax \<le> k" "k \<le> emax"
  shows "round_to p emax (2 powi k) = Fin (2 powi k)"
proof -
  have pos: "0 < (2::real) powi k" by simp
  have il: "ilog2 (2 powi k) = k"
    by (rule ilog2_unique[OF pos]) (simp_all add: powi2_less_iff)
  have a: "max (ilog2 (2 powi k)) (1 - emax) \<le> k" using assms(2) by (simp add: il)
  have "round_mag p emax (2 powi k) = 2 powi k"
    by (rule round_mag_fix[OF pos powi2_split[OF assms(1)] a])
  moreover have "\<not> (2::real) powi (emax + 1) \<le> 2 powi k"
    using assms(3) by (simp add: not_le powi2_less_iff)
  ultimately show ?thesis using pos by (simp add: round_to_pos)
qed

lemma fp_le_Fin_between:
  assumes "fp_le (Fin a) X" "fp_le X (Fin c)"
  shows "\<exists>r. X = Fin r \<and> a \<le> r \<and> r \<le> c"
  using assms by (cases X) simp_all

lemma round_to_between:
  assumes "a \<le> q" "q \<le> c" "round_to p emax a = Fin a" "round_to p emax c = Fin c" "0 < p"
  shows "\<exists>r. round_to p emax q = Fin r \<and> a \<le> r \<and> r \<le> c"
proof -
  have "fp_le (Fin a) (round_to p emax q)"
    using round_to_mono[OF assms(1) assms(5), of emax] by (simp add: assms(3))
  moreover have "fp_le (round_to p emax q) (Fin c)"
    using round_to_mono[OF assms(2) assms(5), of emax] by (simp add: assms(4))
  ultimately show ?thesis by (rule fp_le_Fin_between)
qed

lemma round_to_neg_eq: "round_to p emax (- q) = fp_neg (round_to p emax q)"
  by (cases "q = 0"; cases "0 < q") (auto simp: round_to_pos round_to_neg)

lemma round_to_abs_le:
  assumes "\<bar>q\<bar> \<le> 2 powi k" "0 < p" "1 - emax \<le> k" "k \<le> emax"
  shows "\<exists>r. round_to p emax q = Fin r \<and> \<bar>r\<bar> \<le> 2 powi k"
proof -
  have p2: "round_to p emax (2 powi k) = Fin (2 powi k)" by (rule round_to_pow2[OF assms(2-4)])
  then have n2: "round_to p emax (- (2 powi k)) = Fin (- (2 powi k))"
    by (simp add: round_to_neg_eq)
  have "- (2 powi k) \<le> q" "q \<le> 2 powi k" using assms(1) by linarith+
  from round_to_between[OF this n2 p2 assms(2)] show ?thesis by auto
qed

section \<open>Properties of the operations\<close>

lemma nonneg_cases: "nonneg a \<longleftrightarrow> a = PInf \<or> (\<exists>r. a = Fin r \<and> 0 \<le> r)"
  by (cases a) (auto simp: nonneg_def)

lemma nonpos_cases: "nonpos a \<longleftrightarrow> a = NInf \<or> (\<exists>r. a = Fin r \<and> r \<le> 0)"
  by (cases a) (auto simp: nonpos_def)

lemma nonneg_round: "0 \<le> q \<Longrightarrow> 0 < p \<Longrightarrow> nonneg (round_to p emax q)"
  using round_to_mono[of 0 q p emax] by (simp add: nonneg_def)

lemma nonpos_round: "q \<le> 0 \<Longrightarrow> 0 < p \<Longrightarrow> nonpos (round_to p emax q)"
  using round_to_mono[of q 0 p emax] by (simp add: nonpos_def)

lemma nonneg_round32: "0 \<le> q \<Longrightarrow> nonneg (round32 q)"
  by (simp add: round32_def nonneg_round)

lemma nonneg_round64: "0 \<le> q \<Longrightarrow> nonneg (round64 q)"
  by (simp add: round64_def nonneg_round)

lemma nonpos_round32: "q \<le> 0 \<Longrightarrow> nonpos (round32 q)"
  by (simp add: round32_def nonpos_round)

lemma nonneg_add32: "nonneg a \<Longrightarrow> nonneg c \<Longrightarrow> nonneg (fp_add round32 a c)"
  by (auto simp: nonneg_cases[of a] nonneg_cases[of c] nonneg_round32) (simp add: nonneg_def)+

lemma nonneg_div64: "nonneg a \<Longrightarrow> 0 < d \<Longrightarrow> nonneg (fp_div round64 a (Fin d))"
  by (auto simp: nonneg_cases[of a] nonneg_round64) (simp add: nonneg_def)

lemma nonneg_d2f: "nonneg a \<Longrightarrow> nonneg (double_to_float a)"
  by (auto simp: nonneg_cases[of a] double_to_float_def nonneg_round32) (simp add: nonneg_def)

lemma nonpos_arg: "nonneg d1 \<Longrightarrow> nonneg d2 \<Longrightarrow> nonpos (fp_sub round32 (fp_neg d1) d2)"
  by (auto simp: nonneg_cases[of d1] nonneg_cases[of d2] fp_sub_def nonpos_round32) (simp add: nonpos_def)+

lemma round32_0 [simp]: "round32 0 = Fin 0" by (simp add: round32_def)
lemma round64_0 [simp]: "round64 0 = Fin 0" by (simp add: round64_def)
lemma round32_1 [simp]: "round32 1 = Fin 1"
  using round_to_pow2[of 24 127 0] by (simp add: round32_def)

lemma round32_idem: "round32 q = Fin r \<Longrightarrow> round32 r = Fin r"
  unfolding round32_def by (rule round_to_idem) simp_all

lemma round32_between:
  "a \<le> q \<Longrightarrow> q \<le> c \<Longrightarrow> round32 a = Fin a \<Longrightarrow> round32 c = Fin c
     \<Longrightarrow> \<exists>r. round32 q = Fin r \<and> a \<le> r \<and> r \<le> c"
  unfolding round32_def by (rule round_to_between) simp_all

lemma round32_unit:
  assumes "0 \<le> q" "q \<le> 1"
  shows "\<exists>r. round32 q = Fin r \<and> 0 \<le> r \<and> r \<le> 1 \<and> round32 r = Fin r"
proof -
  from round32_between[OF assms] obtain r where "round32 q = Fin r" "0 \<le> r" "r \<le> 1" by auto
  then show ?thesis using round32_idem by blast
qed

lemma color_channel:
  "\<exists>c. fp_div round32 (int_to_float (uint (w :: 8 word))) (Fin 255) = Fin c \<and> 0 \<le> c \<and> c \<le> 1
       \<and> round32 c = Fin c"
proof -
  define v where "v = uint w"
  have u: "0 \<le> v" "v \<le> 255"
    using uint_bounded[of w] by (simp_all add: v_def)
  then have "int_to_float v = Fin (of_int v)"
    unfolding int_to_float_def by (intro round32_int) simp
  moreover have "0 \<le> real_of_int v / 255" "real_of_int v / 255 \<le> 1"
    using u by simp_all
  from round32_unit[OF this] obtain r where
    "round32 (real_of_int v / 255) = Fin r" "0 \<le> r" "r \<le> 1" "round32 r = Fin r" by auto
  ultimately show ?thesis unfolding v_def[symmetric] by simp
qed

lemma getColor01_ok:
  assumes "0 \<le> x" "x < width imagein" "0 \<le> y" "y < height imagein"
  shows "\<exists>c0 c1 c2. getColor01 imagein x y = Inr (Fin c0, Fin c1, Fin c2)
           \<and> 0 \<le> c0 \<and> c0 \<le> 1 \<and> round32 c0 = Fin c0
           \<and> 0 \<le> c1 \<and> c1 \<le> 1 \<and> round32 c1 = Fin c1
           \<and> 0 \<le> c2 \<and> c2 \<le> 1 \<and> round32 c2 = Fin c2"
  using assms color_channel[of "data imagein y x 0"] color_channel[of "data imagein y x 1"]
    color_channel[of "data imagein y x 2"]
  by (auto simp: getColor01_def)

lemma sigma_den:
  assumes "round32 \<sigma> = Fin \<sigma>" "0 < \<sigma>"
  shows "\<exists>d. fp_mul round64 (fp_mul round64 (Fin 2) (Fin \<sigma>)) (Fin \<sigma>) = Fin d \<and> 0 < d"
proof -
  from round_to_fixed_bounds[of 24 127 \<sigma>] assms
  have lo: "2 powi (- 149) \<le> \<sigma>" and hi: "\<sigma> < 2 powi 128"
    by (simp_all add: round32_def)
  have p1: "round64 (2 powi (- 148)) = Fin (2 powi (- 148))" "round64 (2 powi 129) = Fin (2 powi 129)"
    unfolding round64_def by (rule round_to_pow2; simp)+
  have p2: "round64 (2 powi (- 297)) = Fin (2 powi (- 297))" "round64 (2 powi 257) = Fin (2 powi 257)"
    unfolding round64_def by (rule round_to_pow2; simp)+
  have e1: "(2::real) powi (- 148) = 2 * 2 powi (- 149)" "(2::real) powi 129 = 2 * 2 powi 128"
    by (simp_all add: power_int_minus)
  have "2 powi (- 148) \<le> 2 * \<sigma>" "2 * \<sigma> \<le> 2 powi 129"
    unfolding e1 using lo hi by simp_all
  from round_to_between[OF this p1[unfolded round64_def]]
  obtain a where a: "round64 (2 * \<sigma>) = Fin a" "2 powi (- 148) \<le> a" "a \<le> 2 powi 129"
    by (auto simp: round64_def)
  have e2: "(2::real) powi (- 297) = 2 powi (- 148) * 2 powi (- 149)"
    "(2::real) powi 257 = 2 powi 129 * 2 powi 128"
    by (simp_all flip: power_int_add)
  have "2 powi (- 148) * 2 powi (- 149) \<le> a * \<sigma>"
    using a(2) lo by (intro mult_mono) simp_all
  moreover have "a * \<sigma> \<le> 2 powi 129 * 2 powi 128"
    using a(2,3) hi assms(2) by (intro mult_mono) simp_all
  ultimately have "2 powi (- 297) \<le> a * \<sigma>" "a * \<sigma> \<le> 2 powi 257"
    unfolding e2 by simp_all
  from round_to_between[OF this p2[unfolded round64_def]]
  obtain d where d: "round64 (a * \<sigma>) = Fin d" "2 powi (- 297) \<le> d"
    by (auto simp: round64_def)
  have "0 < (2::real) powi (- 297)" by simp
  with d have "0 < d" by linarith
  with a d show ?thesis by simp
qed

section \<open>The steps of the pixel filter\<close>

lemma getColor01_unit:
  assumes "0 \<le> x" "x < width imagein" "0 \<le> y" "y < height imagein"
  shows "\<exists>I. getColor01 imagein x y = Inr I \<and> unit_color I"
  using getColor01_ok[OF assms] unfolding unit_color_def by blast

lemma spatial_term_ok:
  assumes "round32 \<sigma> = Fin \<sigma>" "0 \<le> \<sigma>" "\<bar>x\<bar> \<le> 2 ^ 24" "\<bar>xi - x\<bar> \<le> 2 ^ 24" "\<bar>ys - y\<bar> \<le> 46340"
  shows "\<exists>d1. spatial_term x y (Fin \<sigma>) (Fin (of_int xi)) ys = Inr d1 \<and> nonneg d1
            \<and> (xi = x \<and> ys = y \<longrightarrow> d1 = Fin 0)"
proof (cases "0 < \<sigma>")
  case False
  then show ?thesis by (simp add: spatial_term_def nonneg_def)
next
  case True
  from sigma_den[OF assms(1) True] obtain d where
    d: "fp_mul round64 (round64 (2 * \<sigma>)) (Fin \<sigma>) = Fin d" "0 < d" by auto
  define dy where "dy = ys - y"
  have dyb: "\<bar>dy\<bar> \<le> 46340" using assms(5) by (simp add: dy_def)
  have "dy * dy = \<bar>dy\<bar> * \<bar>dy\<bar>" by (simp add: abs_mult_self_eq)
  also have "\<dots> \<le> 46340 * 46340" using dyb by (intro mult_mono) simp_all
  finally have sq: "0 \<le> dy * dy" "dy * dy \<le> 2147395600" by simp_all
  have r1: "int_result dy = Inr dy" using dyb by (auto simp: int_result_def INT_MIN_def INT_MAX_def)
  have "- 2147483648 \<le> dy * dy" "dy * dy \<le> 2147483647" using sq by linarith+
  then have r2: "int_result (dy * dy) = Inr (dy * dy)"
    by (simp add: int_result_def INT_MIN_def INT_MAX_def)
  have fx: "int_to_float x = Fin (of_int x)"
    unfolding int_to_float_def by (rule round32_int[OF assms(3)])
  have dx: "fp_sub round32 (Fin (of_int xi)) (int_to_float x) = Fin (of_int (xi - x))"
    using round32_int[OF assms(4)] by (simp add: fx fp_sub_def)
  define num where "num = fp_add round32 (fp_mul round32 (Fin (of_int (xi - x))) (Fin (of_int (xi - x))))
                             (int_to_float (dy * dy))"
  have nn: "nonneg num"
    unfolding num_def int_to_float_def using sq(1)
    by (intro nonneg_add32) (simp_all add: nonneg_round32)
  have eq: "spatial_term x y (Fin \<sigma>) (Fin (of_int xi)) ys
              = Inr (double_to_float (fp_div round64 num (Fin d)))"
    using True by (simp add: spatial_term_def dy_def[symmetric] r1 r2 bind_err_def dx d num_def)
  have "nonneg (double_to_float (fp_div round64 num (Fin d)))"
    by (intro nonneg_d2f nonneg_div64 nn d)
  moreover have "double_to_float (fp_div round64 num (Fin d)) = Fin 0" if "xi = x" "ys = y"
  proof -
    have "d \<noteq> 0" using d(2) by simp
    with that show ?thesis
      by (simp add: num_def dy_def int_to_float_def double_to_float_def)
  qed
  ultimately show ?thesis using eq by simp
qed

lemma round64_abs_le:
  "\<bar>q\<bar> \<le> 2 powi k \<Longrightarrow> - 1022 \<le> k \<Longrightarrow> k \<le> 1023 \<Longrightarrow> \<exists>r. round64 q = Fin r \<and> \<bar>r\<bar> \<le> 2 powi k"
  unfolding round64_def by (rule round_to_abs_le) simp_all

lemma round32_abs_le:
  "\<bar>q\<bar> \<le> 2 powi k \<Longrightarrow> - 126 \<le> k \<Longrightarrow> k \<le> 127 \<Longrightarrow> \<exists>r. round32 q = Fin r \<and> \<bar>r\<bar> \<le> 2 powi k"
  unfolding round32_def by (rule round_to_abs_le) simp_all

lemma luma_const: "\<bar>q\<bar> \<le> 1 \<Longrightarrow> \<exists>C. round64 q = Fin C \<and> \<bar>C\<bar> \<le> 1"
  using round64_abs_le[of q 0] by simp

lemma getIntensity_fin:
  assumes "\<bar>d0\<bar> \<le> 1" "\<bar>d1\<bar> \<le> 1" "\<bar>d2\<bar> \<le> 1"
  shows "\<exists>r. getIntensity (Fin d0, Fin d1, Fin d2) = Fin r"
proof -
  obtain C0 where C0: "luma_r = Fin C0" "\<bar>C0\<bar> \<le> 1"
    unfolding luma_r_def using luma_const[of "2125 / 10000"] by auto
  obtain C1 where C1: "luma_g = Fin C1" "\<bar>C1\<bar> \<le> 1"
    unfolding luma_g_def using luma_const[of "7154 / 10000"] by auto
  obtain C2 where C2: "luma_b = Fin C2" "\<bar>C2\<bar> \<le> 1"
    unfolding luma_b_def using luma_const[of "721 / 10000"] by auto
  have "\<bar>C0 * d0\<bar> \<le> 1 * 1" unfolding abs_mult using C0(2) assms(1) by (intro mult_mono) simp_all
  then obtain P0 where P0: "round64 (C0 * d0) = Fin P0" "\<bar>P0\<bar> \<le> 1" using luma_const by auto
  have "\<bar>C1 * d1\<bar> \<le> 1 * 1" unfolding abs_mult using C1(2) assms(2) by (intro mult_mono) simp_all
  then obtain P1 where P1: "round64 (C1 * d1) = Fin P1" "\<bar>P1\<bar> \<le> 1" using luma_const by auto
  have "\<bar>C2 * d2\<bar> \<le> 1 * 1" unfolding abs_mult using C2(2) assms(3) by (intro mult_mono) simp_all
  then obtain P2 where P2: "round64 (C2 * d2) = Fin P2" "\<bar>P2\<bar> \<le> 1" using luma_const by auto
  have "\<bar>P0 + P1\<bar> \<le> 2 powi 1" using P0(2) P1(2) by simp
  from round64_abs_le[OF this] obtain S1 where S1: "round64 (P0 + P1) = Fin S1" "\<bar>S1\<bar> \<le> 2" by auto
  have "\<bar>S1 + P2\<bar> \<le> 2 powi 2" using S1(2) P2(2) by simp
  from round64_abs_le[OF this] obtain S2 where S2: "round64 (S1 + P2) = Fin S2" "\<bar>S2\<bar> \<le> 2 powi 2" by auto
  from round32_abs_le[OF S2(2)] obtain r where "round32 S2 = Fin r" by auto
  then show ?thesis
    by (simp add: getIntensity_def C0 C1 C2 P0 P1 P2 S1 S2 double_to_float_def)
qed

lemma getIntensity_zero: "getIntensity (Fin 0, Fin 0, Fin 0) = Fin 0"
proof -
  obtain C0 where C0: "luma_r = Fin C0"
    unfolding luma_r_def using luma_const[of "2125 / 10000"] by auto
  obtain C1 where C1: "luma_g = Fin C1"
    unfolding luma_g_def using luma_const[of "7154 / 10000"] by auto
  obtain C2 where C2: "luma_b = Fin C2"
    unfolding luma_b_def using luma_const[of "721 / 10000"] by auto
  show ?thesis
    by (simp add: getIntensity_def C0 C1 C2 double_to_float_def)
qed

lemma intensity_term_ok:
  assumes "round32 \<beta> = Fin \<beta>" "0 \<le> \<beta>" "unit_color I1" "unit_color I2"
  shows "nonneg (intensity_term (Fin \<beta>) I1 I2) \<and> (I2 = I1 \<longrightarrow> intensity_term (Fin \<beta>) I1 I2 = Fin 0)"
proof (cases "0 < \<beta>")
  case False
  then show ?thesis by (simp add: intensity_term_def nonneg_def)
next
  case True
  from sigma_den[OF assms(1) True] obtain d where
    d: "fp_mul round64 (round64 (2 * \<beta>)) (Fin \<beta>) = Fin d" "0 < d" by auto
  from assms(3) obtain a0 a1 a2 where I1: "I1 = (Fin a0, Fin a1, Fin a2)"
    and a: "0 \<le> a0" "a0 \<le> 1" "0 \<le> a1" "a1 \<le> 1" "0 \<le> a2" "a2 \<le> 1"
    unfolding unit_color_def by auto
  from assms(4) obtain b0 b1 b2 where I2: "I2 = (Fin b0, Fin b1, Fin b2)"
    and b: "0 \<le> b0" "b0 \<le> 1" "0 \<le> b1" "b1 \<le> 1" "0 \<le> b2" "b2 \<le> 1"
    unfolding unit_color_def by auto
  have "\<bar>a0 - b0\<bar> \<le> 2 powi 0" using a b by simp
  from round32_abs_le[OF this] obtain e0 where e0: "round32 (a0 - b0) = Fin e0" "\<bar>e0\<bar> \<le> 1" by auto
  have "\<bar>a1 - b1\<bar> \<le> 2 powi 0" using a b by simp
  from round32_abs_le[OF this] obtain e1 where e1: "round32 (a1 - b1) = Fin e1" "\<bar>e1\<bar> \<le> 1" by auto
  have "\<bar>a2 - b2\<bar> \<le> 2 powi 0" using a b by simp
  from round32_abs_le[OF this] obtain e2 where e2: "round32 (a2 - b2) = Fin e2" "\<bar>e2\<bar> \<le> 1" by auto
  from getIntensity_fin[OF e0(2) e1(2) e2(2)] obtain g where g: "getIntensity (Fin e0, Fin e1, Fin e2) = Fin g"
    by auto
  have eq: "intensity_term (Fin \<beta>) I1 I2 = double_to_float (fp_div round64 (round32 (g * g)) (Fin d))"
    using True by (simp add: intensity_term_def I1 I2 fp_sub_def e0 e1 e2 g d Let_def)
  have "nonneg (double_to_float (fp_div round64 (round32 (g * g)) (Fin d)))"
    by (intro nonneg_d2f nonneg_div64 nonneg_round32 d) simp
  moreover have "intensity_term (Fin \<beta>) I1 I2 = Fin 0" if "I2 = I1"
  proof -
    have "d \<noteq> 0" using d(2) by simp
    with that True show ?thesis
      by (simp add: intensity_term_def I1 fp_sub_def getIntensity_zero d Let_def double_to_float_def)
  qed
  ultimately show ?thesis using eq by simp
qed

lemma round32_sat: "round32 (2 ^ 25 + 1) = Fin (2 ^ 25)"
  by (simp add: fl_eval)

lemma channel_step:
  assumes "0 \<le> f" "f \<le> W" "W \<le> 2 ^ 25" "0 \<le> w" "w \<le> 1" "round32 w = Fin w" "0 \<le> c" "c \<le> 1"
  shows "\<exists>f' W'. fp_add round32 (Fin f) (fp_mul round32 (Fin w) (Fin c)) = Fin f'
           \<and> fp_add round32 (Fin W) (Fin w) = Fin W'
           \<and> 0 \<le> f' \<and> f' \<le> W' \<and> W' \<le> 2 ^ 25 \<and> (1 \<le> W + w \<longrightarrow> 1 \<le> W')"
proof -
  have "0 \<le> w * c" "w * c \<le> w"
    using assms by (simp_all add: mult_left_le)
  from round32_between[OF this _ assms(6)] obtain t where t: "round32 (w * c) = Fin t" "0 \<le> t" "t \<le> w"
    by auto
  have m: "fp_le (round_to 24 127 a) (round_to 24 127 c)" if "a \<le> c" for a c
    using that by (rule round_to_mono) simp
  have "fp_le (Fin 0) (round32 (W + w))"
    using m[of 0 "W + w"] assms by (simp add: round32_def)
  moreover have "fp_le (round32 (W + w)) (Fin (2 ^ 25))"
    using m[of "W + w" "2 ^ 25 + 1"] assms round32_sat by (simp add: round32_def)
  ultimately obtain W' where W': "round32 (W + w) = Fin W'" "0 \<le> W'" "W' \<le> 2 ^ 25"
    using fp_le_Fin_between by blast
  have "fp_le (Fin 0) (round32 (f + t))"
    using m[of 0 "f + t"] assms t by (simp add: round32_def)
  moreover have "fp_le (round32 (f + t)) (Fin W')"
    using m[of "f + t" "W + w"] assms t W' by (simp add: round32_def)
  ultimately obtain f' where f': "round32 (f + t) = Fin f'" "0 \<le> f'" "f' \<le> W'"
    using fp_le_Fin_between by blast
  have "1 \<le> W'" if "1 \<le> W + w"
    using m[OF that] W' by (simp add: round32_def[symmetric])
  with t W' f' show ?thesis by simp
qed

lemma accumulate_ok:
  assumes "sums_ok seen acc" "0 \<le> w" "w \<le> 1" "round32 w = Fin w" "unit_color I2" "hit \<longrightarrow> w = 1"
  shows "sums_ok (seen \<or> hit) (accumulate (Fin w) I2 acc)"
proof -
  from assms(1) obtain f0 f1 f2 W where acc: "acc = ((Fin f0, Fin f1, Fin f2), Fin W)"
    and f: "0 \<le> f0" "f0 \<le> W" "0 \<le> f1" "f1 \<le> W" "0 \<le> f2" "f2 \<le> W" "W \<le> 2 ^ 25"
    and s: "seen \<longrightarrow> 1 \<le> W"
    unfolding sums_ok_def by auto
  from assms(5) obtain c0 c1 c2 where I2: "I2 = (Fin c0, Fin c1, Fin c2)"
    and c: "0 \<le> c0" "c0 \<le> 1" "0 \<le> c1" "c1 \<le> 1" "0 \<le> c2" "c2 \<le> 1"
    unfolding unit_color_def by auto
  from channel_step[OF f(1,2,7) assms(2,3,4) c(1,2)] obtain g0 W' where
    g0: "fp_add round32 (Fin f0) (fp_mul round32 (Fin w) (Fin c0)) = Fin g0" "0 \<le> g0" "g0 \<le> W'"
    and W': "fp_add round32 (Fin W) (Fin w) = Fin W'" "W' \<le> 2 ^ 25" "1 \<le> W + w \<longrightarrow> 1 \<le> W'"
    by auto
  from channel_step[OF f(3,4,7) assms(2,3,4) c(3,4)] W'(1) obtain g1 where
    g1: "fp_add round32 (Fin f1) (fp_mul round32 (Fin w) (Fin c1)) = Fin g1" "0 \<le> g1" "g1 \<le> W'"
    by auto
  from channel_step[OF f(5,6,7) assms(2,3,4) c(5,6)] W'(1) obtain g2 where
    g2: "fp_add round32 (Fin f2) (fp_mul round32 (Fin w) (Fin c2)) = Fin g2" "0 \<le> g2" "g2 \<le> W'"
    by auto
  have "0 \<le> W" using f by linarith
  then have "1 \<le> W + w" if "seen \<or> hit"
    using that s assms(2,6) by auto
  with W'(3) have "seen \<or> hit \<longrightarrow> 1 \<le> W'" by blast
  with g0 g1 g2 W' show ?thesis
    unfolding sums_ok_def accumulate_def acc I2 by simp
qed

lemma window_step_ok:
  assumes ex: "exp_like ex"
    and sg: "round32 \<sigma> = Fin \<sigma>" "0 \<le> \<sigma>"
    and bg: "round32 \<beta> = Fin \<beta>" "0 \<le> \<beta>"
    and x: "0 \<le> x" "x < width imagein" "width imagein \<le> 2 ^ 24"
    and I1: "getColor01 imagein x y = Inr I1" "unit_color I1"
    and xi: "0 \<le> xi" "xi < width imagein"
    and ys: "0 \<le> ys" "ys < height imagein" "\<bar>ys - y\<bar> \<le> 46340"
    and inv: "sums_ok seen acc"
  shows "\<exists>acc'. window_step ex imagein x y (Fin \<sigma>) (Fin \<beta>) I1 (Fin (of_int xi)) ys acc = Inr acc'
           \<and> sums_ok (seen \<or> (xi = x \<and> ys = y)) acc'"
proof -
  have ti: "float_to_int (Fin (of_int xi)) = Inr xi"
    using xi x by (simp add: float_to_int_def trunc_def INT_MIN_def INT_MAX_def)
  from getColor01_unit[OF xi(1,2) ys(1,2)] obtain I2 where
    I2: "getColor01 imagein xi ys = Inr I2" "unit_color I2" by auto
  have "\<bar>x\<bar> \<le> 2 ^ 24" "\<bar>xi - x\<bar> \<le> 2 ^ 24" using x xi by simp_all
  from spatial_term_ok[OF sg this ys(3)] obtain d1 where
    d1: "spatial_term x y (Fin \<sigma>) (Fin (of_int xi)) ys = Inr d1" "nonneg d1"
        "xi = x \<and> ys = y \<longrightarrow> d1 = Fin 0" by auto
  define d2 where "d2 = intensity_term (Fin \<beta>) I1 I2"
  from intensity_term_ok[OF bg I1(2) I2(2)] have
    d2: "nonneg d2" "I2 = I1 \<longrightarrow> d2 = Fin 0" by (simp_all add: d2_def)
  have "nonpos (fp_sub round32 (fp_neg d1) d2)" by (rule nonpos_arg[OF d1(2) d2(1)])
  with ex obtain w where w: "ex (fp_sub round32 (fp_neg d1) d2) = Fin w" "0 \<le> w" "w \<le> 1" "round32 w = Fin w"
    unfolding exp_like_def by blast
  have hit: "w = 1" if "xi = x \<and> ys = y"
  proof -
    from that I1 I2 have "I2 = I1" by simp
    with that d1 d2 have "fp_sub round32 (fp_neg d1) d2 = Fin 0" by (simp add: fp_sub_def)
    with w(1) ex show ?thesis by (simp add: exp_like_def)
  qed
  have "window_step ex imagein x y (Fin \<sigma>) (Fin \<beta>) I1 (Fin (of_int xi)) ys acc
          = Inr (accumulate (Fin w) I2 acc)"
    by (simp add: window_step_def ti I2 d1 bind_err_def d2_def[symmetric] w Let_def)
  moreover have "sums_ok (seen \<or> (xi = x \<and> ys = y)) (accumulate (Fin w) I2 acc)"
    using hit by (intro accumulate_ok[OF inv w(2,3,4) I2(2)]) simp
  ultimately show ?thesis by simp
qed

lemma yloop_ok:
  assumes ex: "exp_like ex"
    and sg: "round32 \<sigma> = Fin \<sigma>" "0 \<le> \<sigma>"
    and bg: "round32 \<beta> = Fin \<beta>" "0 \<le> \<beta>"
    and x: "0 \<le> x" "x < width imagein" "width imagein \<le> 2 ^ 24"
    and I1: "getColor01 imagein x y = Inr I1" "unit_color I1"
    and xi: "0 \<le> xi" "xi < width imagein"
    and rows: "0 \<le> ys" "y2 < height imagein" "y - 46340 \<le> ys" "y2 \<le> y + 46340"
    and inv: "sums_ok seen acc"
  shows "\<exists>acc'. yloop ex imagein x y (Fin \<sigma>) (Fin \<beta>) I1 (Fin (of_int xi)) y2 acc ys = Inr acc'
           \<and> sums_ok (seen \<or> (xi = x \<and> ys \<le> y \<and> y \<le> y2)) acc'"
  using rows inv
proof (induction "nat (y2 + 1 - ys)" arbitrary: ys acc seen)
  case 0
  then have nle: "\<not> ys \<le> y2" by simp
  then have "(seen \<or> (xi = x \<and> ys \<le> y \<and> y \<le> y2)) = seen" by auto
  with 0 nle show ?case by (simp add: yloop_done)
next
  case (Suc n)
  then have le: "ys \<le> y2" by simp
  have "0 \<le> ys" "ys < height imagein" "\<bar>ys - y\<bar> \<le> 46340"
    using Suc.prems le by simp_all
  from window_step_ok[OF ex sg bg x I1 xi this Suc.prems(5)] obtain acc1 where
    st: "window_step ex imagein x y (Fin \<sigma>) (Fin \<beta>) I1 (Fin (of_int xi)) ys acc = Inr acc1"
    and inv1: "sums_ok (seen \<or> (xi = x \<and> ys = y)) acc1" by auto
  have n: "n = nat (y2 + 1 - (ys + 1))" using Suc.hyps(2) by simp
  have "0 \<le> ys + 1" "y - 46340 \<le> ys + 1" using Suc.prems by simp_all
  from Suc.hyps(1)[OF n this(1) Suc.prems(2) this(2) Suc.prems(4) inv1] obtain acc' where
    r: "yloop ex imagein x y (Fin \<sigma>) (Fin \<beta>) I1 (Fin (of_int xi)) y2 acc1 (ys + 1) = Inr acc'"
    and inv': "sums_ok ((seen \<or> (xi = x \<and> ys = y)) \<or> (xi = x \<and> ys + 1 \<le> y \<and> y \<le> y2)) acc'" by auto
  have "((seen \<or> (xi = x \<and> ys = y)) \<or> (xi = x \<and> ys + 1 \<le> y \<and> y \<le> y2))
          = (seen \<or> (xi = x \<and> ys \<le> y \<and> y \<le> y2))"
    using le by auto
  with inv' have "sums_ok (seen \<or> (xi = x \<and> ys \<le> y \<and> y \<le> y2)) acc'" by simp
  moreover have "yloop ex imagein x y (Fin \<sigma>) (Fin \<beta>) I1 (Fin (of_int xi)) y2 acc ys = Inr acc'"
    using le by (simp add: yloop_step st r)
  ultimately show ?case by blast
qed

lemma xloop_ok:
  assumes ex: "exp_like ex"
    and sg: "round32 \<sigma> = Fin \<sigma>" "0 \<le> \<sigma>"
    and bg: "round32 \<beta> = Fin \<beta>" "0 \<le> \<beta>"
    and x: "0 \<le> x" "x < width imagein" "width imagein \<le> 2 ^ 24"
    and I1: "getColor01 imagein x y = Inr I1" "unit_color I1"
    and rows: "0 \<le> y1" "y2 < height imagein" "y - 46340 \<le> y1" "y2 \<le> y + 46340"
    and cols: "0 \<le> xi" "x2 < width imagein" "0 \<le> x2"
    and inv: "sums_ok seen acc"
  shows "\<exists>acc'. xloop ex imagein x y (Fin \<sigma>) (Fin \<beta>) I1 x2 y1 y2 acc (Fin (of_int xi)) = Some (Inr acc')
           \<and> sums_ok (seen \<or> (xi \<le> x \<and> x \<le> x2 \<and> y1 \<le> y \<and> y \<le> y2)) acc'"
  using cols(1) inv
proof (induction "nat (x2 + 1 - xi)" arbitrary: xi acc seen)
  case 0
  have fx2: "int_to_float x2 = Fin (of_int x2)"
    unfolding int_to_float_def using cols x by (intro round32_int) simp
  from 0 have nle: "\<not> xi \<le> x2" by simp
  then have c: "\<not> fp_le (Fin (of_int xi)) (int_to_float x2)" by (simp add: fx2)
  from nle have "(seen \<or> (xi \<le> x \<and> x \<le> x2 \<and> y1 \<le> y \<and> y \<le> y2)) = seen" by auto
  with 0 show ?case by (simp add: xloop_done[OF c])
next
  case (Suc n)
  have fx2: "int_to_float x2 = Fin (of_int x2)"
    unfolding int_to_float_def using cols x by (intro round32_int) simp
  from Suc have le: "xi \<le> x2" by simp
  then have c: "fp_le (Fin (of_int xi)) (int_to_float x2)" by (simp add: fx2)
  have xi: "0 \<le> xi" "xi < width imagein" using Suc.prems le cols by simp_all
  from yloop_ok[OF ex sg bg x I1 xi rows Suc.prems(2)] obtain acc1 where
    yl: "yloop ex imagein x y (Fin \<sigma>) (Fin \<beta>) I1 (Fin (of_int xi)) y2 acc y1 = Inr acc1"
    and inv1: "sums_ok (seen \<or> (xi = x \<and> y1 \<le> y \<and> y \<le> y2)) acc1" by auto
  have "\<bar>xi + 1\<bar> \<le> 2 ^ 24" using xi x by simp
  from round32_int[OF this] have nx: "round32 (real_of_int xi + 1) = Fin (real_of_int xi + 1)"
    by simp
  have n: "n = nat (x2 + 1 - (xi + 1))" using Suc.hyps(2) by simp
  have "0 \<le> xi + 1" using xi by simp
  from Suc.hyps(1)[OF n this inv1] obtain acc' where
    r: "xloop ex imagein x y (Fin \<sigma>) (Fin \<beta>) I1 x2 y1 y2 acc1 (Fin (of_int (xi + 1))) = Some (Inr acc')"
    and inv': "sums_ok ((seen \<or> (xi = x \<and> y1 \<le> y \<and> y \<le> y2))
                  \<or> (xi + 1 \<le> x \<and> x \<le> x2 \<and> y1 \<le> y \<and> y \<le> y2)) acc'" by auto
  have "((seen \<or> (xi = x \<and> y1 \<le> y \<and> y \<le> y2)) \<or> (xi + 1 \<le> x \<and> x \<le> x2 \<and> y1 \<le> y \<and> y \<le> y2))
          = (seen \<or> (xi \<le> x \<and> x \<le> x2 \<and> y1 \<le> y \<and> y \<le> y2))"
    using le by auto
  with inv' have "sums_ok (seen \<or> (xi \<le> x \<and> x \<le> x2 \<and> y1 \<le> y \<and> y \<le> y2)) acc'" by simp
  moreover have "xloop ex imagein x y (Fin \<sigma>) (Fin \<beta>) I1 x2 y1 y2 acc (Fin (of_int xi)) = Some (Inr acc')"
    using r by (simp add: xloop_step[OF c] yl nx)
  ultimately show ?case by blast
qed

lemma support_nonneg:
  assumes "0 \<le> \<sigma>" "float_to_int (fp_mul round32 (Fin \<sigma>) (int_to_float 3)) = Inr S"
  shows "0 \<le> S \<and> S \<le> 2147483647"
proof -
  have f3: "int_to_float 3 = Fin 3"
    using round32_int[of 3] by (simp add: int_to_float_def)
  have "nonneg (round32 (\<sigma> * 3))" using assms(1) by (intro nonneg_round32) simp
  then consider "round32 (\<sigma> * 3) = PInf" | r where "round32 (\<sigma> * 3) = Fin r" "0 \<le> r"
    unfolding nonneg_cases by blast
  then show ?thesis
  proof cases
    case 1
    with assms(2) show ?thesis by (simp add: f3 float_to_int_def)
  next
    case 2
    with assms(2) show ?thesis
      by (auto simp: f3 float_to_int_def trunc_def INT_MAX_def split: if_splits)
  qed
qed

lemma window_ok:
  assumes "0 \<le> \<sigma>" "float_to_int (fp_mul round32 (Fin \<sigma>) (int_to_float 3)) = Inr S" "S \<le> 46340"
    and "0 \<le> x" "x < width imagein" "width imagein \<le> 2 ^ 24"
    and "0 \<le> y" "y < height imagein" "height imagein \<le> 2 ^ 24"
  shows "\<exists>win. window imagein x y (Fin \<sigma>) = Inr win
           \<and> 0 \<le> win_x1 win \<and> win_x1 win \<le> x \<and> x \<le> win_x2 win \<and> win_x2 win < width imagein
           \<and> 0 \<le> win_y1 win \<and> win_y1 win \<le> y \<and> y \<le> win_y2 win \<and> win_y2 win < height imagein
           \<and> y - 46340 \<le> win_y1 win \<and> win_y2 win \<le> y + 46340"
proof -
  from support_nonneg[OF assms(1,2)] have S: "0 \<le> S" by simp
  have r: "int_result v = Inr v" if "- 2147483648 \<le> v" "v \<le> 2147483647" for v
    using that by (simp add: int_result_def INT_MIN_def INT_MAX_def)
  have "int_result (x - S) = Inr (x - S)" "int_result (x + S) = Inr (x + S)"
    "int_result (width imagein - 1) = Inr (width imagein - 1)"
    "int_result (y - S) = Inr (y - S)" "int_result (y + S) = Inr (y + S)"
    "int_result (height imagein - 1) = Inr (height imagein - 1)"
    using assms S by (intro r; simp)+
  then show ?thesis
    using assms S by (simp add: window_def bind_err_def)
qed

lemma sums_ok_init: "sums_ok False ((Fin 0, Fin 0, Fin 0), Fin 0)"
  by (simp add: sums_ok_def)

lemma windowSums_ok:
  assumes ex: "exp_like ex"
    and sg: "round32 \<sigma> = Fin \<sigma>" "0 \<le> \<sigma>"
    and sup: "float_to_int (fp_mul round32 (Fin \<sigma>) (int_to_float 3)) = Inr S" "S \<le> 46340"
    and bg: "round32 \<beta> = Fin \<beta>" "0 \<le> \<beta>"
    and x: "0 \<le> x" "x < width imagein" "width imagein \<le> 2 ^ 24"
    and y: "0 \<le> y" "y < height imagein" "height imagein \<le> 2 ^ 24"
  shows "\<exists>acc. windowSums ex imagein x y (Fin \<sigma>) (Fin \<beta>) = Some (Inr acc) \<and> sums_ok True acc"
proof -
  from window_ok[OF sg(2) sup x y] obtain win where
    win: "window imagein x y (Fin \<sigma>) = Inr win"
    and b: "0 \<le> win_x1 win" "win_x1 win \<le> x" "x \<le> win_x2 win" "win_x2 win < width imagein"
      "0 \<le> win_y1 win" "win_y1 win \<le> y" "y \<le> win_y2 win" "win_y2 win < height imagein"
      "y - 46340 \<le> win_y1 win" "win_y2 win \<le> y + 46340" by blast
  from getColor01_unit[OF x(1,2) y(1,2)] obtain I1 where
    I1: "getColor01 imagein x y = Inr I1" "unit_color I1" by auto
  have f1: "int_to_float (win_x1 win) = Fin (of_int (win_x1 win))"
    unfolding int_to_float_def using b x by (intro round32_int) simp
  have x2: "0 \<le> win_x2 win" using b x by simp
  from xloop_ok[OF ex sg bg x I1 b(5,8,9,10) b(1,4) x2 sums_ok_init] obtain acc where
    "xloop ex imagein x y (Fin \<sigma>) (Fin \<beta>) I1 (win_x2 win) (win_y1 win) (win_y2 win)
        ((Fin 0, Fin 0, Fin 0), Fin 0) (Fin (of_int (win_x1 win))) = Some (Inr acc)"
    "sums_ok (False \<or> (win_x1 win \<le> x \<and> x \<le> win_x2 win \<and> win_y1 win \<le> y \<and> y \<le> win_y2 win)) acc"
    by blast
  with b show ?thesis
    by (simp add: windowSums_def win I1 f1)
qed

section \<open>The quantisation and the single-pixel window\<close>

lemma exp_like_expf_rn: "exp_like expf_rn"
proof -
  have "\<exists>w. expf_rn a = Fin w \<and> 0 \<le> w \<and> w \<le> 1 \<and> round32 w = Fin w" if "nonpos a" for a
  proof -
    from that consider "a = NInf" | q where "a = Fin q" "q \<le> 0"
      unfolding nonpos_cases by blast
    then show ?thesis
    proof cases
      case 1
      then show ?thesis by (simp add: expf_rn_def)
    next
      case 2
      then have "0 \<le> exp q" "exp q \<le> 1" by simp_all
      from round32_unit[OF this] show ?thesis using 2 by (simp add: expf_rn_def)
    qed
  qed
  then show ?thesis by (simp add: exp_like_def expf_rn_def)
qed

lemma int_to_float_255: "int_to_float 255 = Fin 255"
  using round32_int[of 255] by (simp add: int_to_float_def)

lemma round32_above_255: "round32 (255 + 1 / 65536) = Fin (255 + 1 / 65536)"
  by (simp add: fl_eval)

lemma round32_error:
  assumes "1 \<le> q" "q \<le> 2 powi 127"
  shows "\<exists>r. round32 q = Fin r \<and> r \<le> q * (1 + 2 powi (- 24))"
proof -
  have q0: "0 < q" using assms by simp
  have p: "round32 (2 powi 127) = Fin (2 powi 127)"
    unfolding round32_def by (rule round_to_pow2) simp_all
  have "0 \<le> q" using q0 by simp
  from round32_between[OF this assms(2) round32_0 p] obtain r where r: "round32 q = Fin r" by auto
  then have rm: "r = round_mag 24 127 q"
    using q0 by (auto simp: round32_def round_to_pos split: if_splits)
  have "ilog2 1 \<le> ilog2 q" by (rule ilog2_mono) (use assms in simp_all)
  moreover have "ilog2 1 = 0" by (rule ilog2_unique) simp_all
  ultimately have "1 - 127 \<le> ilog2 q" by simp
  from round_mag_error[OF q0 this, of 24] rm r show ?thesis by simp
qed

lemma quantize_ok:
  assumes "0 \<le> f" "f \<le> W" "1 \<le> W" "W \<le> 2 ^ 25"
  shows "\<exists>q. fp_div round32 (fp_mul round32 (int_to_float 255) (Fin f)) (Fin W) = Fin q
           \<and> 0 \<le> q \<and> q < 256 \<and> quantize (Fin f) (Fin W) = Inr (word_of_int \<lfloor>q\<rfloor>)"
proof -
  have W0: "0 < W" using assms by simp
  have "1 \<le> 255 * W" using assms by simp
  moreover have "255 * W \<le> 2 powi 127"
  proof -
    have "255 * W \<le> 255 * 2 ^ 25" using assms by simp
    also have "\<dots> \<le> (2::real) powi 127" by simp
    finally show ?thesis .
  qed
  ultimately obtain tW where tW: "round32 (255 * W) = Fin tW" "tW \<le> 255 * W * (1 + 2 powi (- 24))"
    using round32_error by blast
  have m: "fp_le (round32 a) (round32 c)" if "a \<le> c" for a c
    unfolding round32_def using that by (rule round_to_mono) simp
  have "fp_le (Fin 0) (round32 (255 * f))" using m[of 0 "255 * f"] assms by simp
  moreover have "fp_le (round32 (255 * f)) (Fin tW)" using m[of "255 * f" "255 * W"] assms tW by simp
  ultimately obtain t where t: "round32 (255 * f) = Fin t" "0 \<le> t" "t \<le> tW"
    using fp_le_Fin_between by blast
  have "t / W \<le> 255 * (1 + 2 powi (- 24))"
  proof -
    have "t \<le> 255 * (1 + 2 powi (- 24)) * W" using t tW by (simp add: mult.assoc mult.commute)
    then show ?thesis using W0 by (simp add: pos_divide_le_eq)
  qed
  also have "\<dots> \<le> 255 + 1 / 65536" by (simp add: power_int_minus)
  finally have up: "t / W \<le> 255 + 1 / 65536" .
  have "0 \<le> t / W" using t W0 by simp
  from round32_between[OF this up round32_0 round32_above_255] obtain q where
    q: "round32 (t / W) = Fin q" "0 \<le> q" "q \<le> 255 + 1 / 65536" by auto
  have fl: "0 \<le> \<lfloor>q\<rfloor>" "\<lfloor>q\<rfloor> \<le> 255" using q by (simp_all add: floor_le_iff)
  have "fp_div round32 (fp_mul round32 (int_to_float 255) (Fin f)) (Fin W) = Fin q"
    using W0 by (simp add: int_to_float_255 t q)
  moreover from this have "quantize (Fin f) (Fin W) = Inr (word_of_int \<lfloor>q\<rfloor>)"
    using q fl by (simp add: quantize_def float_to_uint8_def trunc_def)
  moreover have "q < 256" using q by simp
  ultimately show ?thesis using q by blast
qed

lemma single_pixel_sums:
  assumes ex: "ex (Fin 0) = Fin 1"
    and sg: "round32 \<sigma> = Fin \<sigma>" "0 \<le> \<sigma>"
    and bg: "round32 \<beta> = Fin \<beta>" "0 \<le> \<beta>"
    and x: "0 \<le> x" "x < width imagein" "width imagein \<le> 2 ^ 24"
    and y: "0 \<le> y" "y < height imagein"
    and win: "window imagein x y (Fin \<sigma>) = Inr \<lparr>win_x1 = x, win_x2 = x, win_y1 = y, win_y2 = y\<rparr>"
    and I1: "getColor01 imagein x y = Inr I1"
  shows "windowSums ex imagein x y (Fin \<sigma>) (Fin \<beta>) = Some (Inr (I1, Fin 1))"
proof -
  from getColor01_unit[OF x(1,2) y] I1 have u: "unit_color I1" by simp
  then obtain c0 c1 c2 where c: "I1 = (Fin c0, Fin c1, Fin c2)"
    "round32 c0 = Fin c0" "round32 c1 = Fin c1" "round32 c2 = Fin c2"
    unfolding unit_color_def by auto
  have fx: "int_to_float x = Fin (of_int x)"
    unfolding int_to_float_def using x by (intro round32_int) simp
  have ti: "float_to_int (Fin (of_int x)) = Inr x"
    using x by (simp add: float_to_int_def trunc_def INT_MIN_def INT_MAX_def)
  have "\<bar>x\<bar> \<le> 2 ^ 24" "\<bar>x - x\<bar> \<le> 2 ^ 24" "\<bar>y - y\<bar> \<le> 46340" using x by simp_all
  from spatial_term_ok[OF sg this] have d1: "spatial_term x y (Fin \<sigma>) (Fin (of_int x)) y = Inr (Fin 0)"
    by auto
  from intensity_term_ok[OF bg u u] have d2: "intensity_term (Fin \<beta>) I1 I1 = Fin 0" by simp
  have st: "window_step ex imagein x y (Fin \<sigma>) (Fin \<beta>) I1 (Fin (of_int x)) y ((Fin 0, Fin 0, Fin 0), Fin 0)
              = Inr (I1, Fin 1)"
    by (simp add: window_step_def ti I1 d1 d2[unfolded c(1)] bind_err_def fp_sub_def ex accumulate_def c)
  have yl: "yloop ex imagein x y (Fin \<sigma>) (Fin \<beta>) I1 (Fin (of_int x)) y ((Fin 0, Fin 0, Fin 0), Fin 0) y
              = Inr (I1, Fin 1)"
    by (simp add: yloop_step st yloop_done)
  have "\<bar>x + 1\<bar> \<le> 2 ^ 24" using x by simp
  from round32_int[OF this] have nx: "round32 (real_of_int x + 1) = Fin (real_of_int x + 1)" by simp
  have c1: "fp_le (Fin (of_int x)) (int_to_float x)" by (simp add: fx)
  have c2: "\<not> fp_le (Fin (real_of_int x + 1)) (int_to_float x)" by (simp add: fx)
  have "xloop ex imagein x y (Fin \<sigma>) (Fin \<beta>) I1 x y y ((Fin 0, Fin 0, Fin 0), Fin 0) (Fin (of_int x))
          = Some (Inr (I1, Fin 1))"
    by (simp add: xloop_step[OF c1] yl nx xloop_done[OF c2])
  then show ?thesis by (simp add: windowSums_def win I1 fx)
qed

lemma rt_0: "\<forall>i\<in>set [0..63]. quantize (fp_div round32 (int_to_float i) (Fin 255)) (Fin 1) = Inr (word_of_int i)"
  by (simp add: upto_rec1 quantize_def conv_eval fl_eval)

lemma rt_1: "\<forall>i\<in>set [64..127]. quantize (fp_div round32 (int_to_float i) (Fin 255)) (Fin 1) = Inr (word_of_int i)"
  by (simp add: upto_rec1 quantize_def conv_eval fl_eval)

lemma rt_2: "\<forall>i\<in>set [128..191]. quantize (fp_div round32 (int_to_float i) (Fin 255)) (Fin 1) = Inr (word_of_int i)"
  by (simp add: upto_rec1 quantize_def conv_eval fl_eval)

lemma rt_3: "\<forall>i\<in>set [192..255]. quantize (fp_div round32 (int_to_float i) (Fin 255)) (Fin 1) = Inr (word_of_int i)"
  by (simp add: upto_rec1 quantize_def conv_eval fl_eval)

lemma quantize_roundtrip:
  "quantize (fp_div round32 (int_to_float (uint (w :: 8 word))) (Fin 255)) (Fin 1) = Inr w"
proof -
  define i where "i = uint w"
  have b: "0 \<le> i" "i \<le> 255" using uint_bounded[of w] by (simp_all add: i_def)
  then have "i \<in> set [0..63] \<or> i \<in> set [64..127] \<or> i \<in> set [128..191] \<or> i \<in> set [192..255]"
    unfolding set_upto atLeastAtMost_iff by arith
  then have "quantize (fp_div round32 (int_to_float i) (Fin 255)) (Fin 1) = Inr (word_of_int i)"
    using rt_0 rt_1 rt_2 rt_3 by blast
  then show ?thesis by (simp add: i_def)
qed

lemma single_pixel_window:
  assumes "0 \<le> \<sigma>" "float_to_int (fp_mul round32 (Fin \<sigma>) (int_to_float 3)) = Inr S"
    and "width imagein = 1" "height imagein = 1"
  shows "window imagein 0 0 (Fin \<sigma>) = Inr \<lparr>win_x1 = 0, win_x2 = 0, win_y1 = 0, win_y2 = 0\<rparr>"
proof -
  from support_nonneg[OF assms(1,2)] have S: "0 \<le> S" "S \<le> 2147483647" by simp_all
  have r: "int_result v = Inr v" if "- 2147483648 \<le> v" "v \<le> 2147483647" for v
    using that by (simp add: int_result_def INT_MIN_def INT_MAX_def)
  have "int_result (0 - S) = Inr (0 - S)" "int_result (0 + S) = Inr (0 + S)"
    using S by (intro r; simp)+
  then show ?thesis
    using assms S by (simp add: window_def bind_err_def r)
qed

lemma support_of_1: "float_to_int (fp_mul round32 (Fin 1) (int_to_float 3)) = Inr 3"
  by (simp add: conv_eval fl_eval)

section \<open>The float column counter\<close>

lemma stuck_column:
  "yloop expf_rn wide_b 16777217 0 (Fin 0) (Fin 0) I1 (Fin 16777216) 0 acc 0
     = Inr (accumulate (Fin 1) (Fin 0, Fin 0, Fin 0) acc)"
  by (simp add: yloop_step yloop_done window_step_def spatial_term_def intensity_term_def
      getColor01_def wide_b_def expf_rn_def conv_eval fl_eval cong: eval_cong)

lemma stuck_counter: "round32 16777217 = Fin 16777216"
  by (simp add: fl_eval)

lemma stuck_test: "fp_le (Fin 16777216) (int_to_float 16777217)"
  by (simp add: conv_eval fl_eval)

lemma xloop_stuck:
  assumes "xloop ex imagein x y sg bg I1 x2 y1 y2 acc xs = Some r"
  shows "\<not> (ex = expf_rn \<and> imagein = wide_b \<and> x = 16777217 \<and> y = 0 \<and> sg = Fin 0 \<and> bg = Fin 0
            \<and> x2 = 16777217 \<and> y1 = 0 \<and> y2 = 0 \<and> xs = Fin 16777216)"
proof -
  note R = xloop.raw_induct[where xa = "(((((((((((ex, imagein), x), y), sg), bg), I1), x2), y1), y2), acc), xs)"
      and ya = r
      and P = "\<lambda>ex imagein x y sg bg I1 x2 y1 y2 acc xs r.
        \<not> (ex = expf_rn \<and> imagein = wide_b \<and> x = 16777217 \<and> y = 0 \<and> sg = Fin 0 \<and> bg = Fin 0
            \<and> x2 = 16777217 \<and> y1 = 0 \<and> y2 = 0 \<and> xs = Fin 16777216)", unfolded prod.case]
  show ?thesis
  proof (rule R)
    show "xloop ex imagein x y sg bg I1 x2 y1 y2 acc xs = Some r" by fact
  next
    fix xloop' ex imagein x y sg bg I1 x2 y1 y2 acc xs r
    assume ih: "\<And>ex imagein x y sg bg I1 x2 y1 y2 acc xs r.
        xloop' ex imagein x y sg bg I1 x2 y1 y2 acc xs = Some r \<Longrightarrow>
        \<not> (ex = expf_rn \<and> imagein = wide_b \<and> x = 16777217 \<and> y = 0 \<and> sg = Fin 0 \<and> bg = Fin 0
            \<and> x2 = 16777217 \<and> y1 = 0 \<and> y2 = 0 \<and> xs = Fin 16777216)"
      and body: "(if fp_le xs (int_to_float x2)
           then case yloop ex imagein x y sg bg I1 xs y2 acc y1 of
             Inl e \<Rightarrow> Some (Inl e)
           | Inr acc' \<Rightarrow> xloop' ex imagein x y sg bg I1 x2 y1 y2 acc' (fp_add round32 xs (Fin 1))
           else Some (Inr acc)) = Some r"
    show "\<not> (ex = expf_rn \<and> imagein = wide_b \<and> x = 16777217 \<and> y = 0 \<and> sg = Fin 0 \<and> bg = Fin 0
            \<and> x2 = 16777217 \<and> y1 = 0 \<and> y2 = 0 \<and> xs = Fin 16777216)"
    proof
      assume s: "ex = expf_rn \<and> imagein = wide_b \<and> x = 16777217 \<and> y = 0 \<and> sg = Fin 0 \<and> bg = Fin 0
            \<and> x2 = 16777217 \<and> y1 = 0 \<and> y2 = 0 \<and> xs = Fin 16777216"
      with body have "xloop' expf_rn wide_b 16777217 0 (Fin 0) (Fin 0) I1 16777217 0 0
          (accumulate (Fin 1) (Fin 0, Fin 0, Fin 0) acc) (Fin 16777216) = Some r"
        by (simp add: stuck_test stuck_column stuck_counter)
      from ih[OF this] show False by simp
    qed
  qed
qed

section \<open>The pixel filter: claims\<close>

text \<open>
  C1, as stated: for every in-bounds target and all sigmas \<open>s \<ge> 0\<close>, \<open>b \<ge> 0\<close> the clipped
  window contains the target pixel and the weight sum is at least 1.  It fails where the
  support \<^verbatim>\<open>(int)(s*3)\<close> is not defined: for \<open>s = 10\<^sup>9\<close> the product \<open>3 \<cdot> 10\<^sup>9\<close> is a binary32
  value above \<^verbatim>\<open>INT_MAX\<close>, the conversion is undefined and no window or weight sum is
  computed.
\<close>

theorem weight_sum_undefined_counterexample:
  "windowSums expf_rn img1 0 0 (Fin 1000000000) (Fin 1) = Some (Inl FloatToInt)"
  by (simp add: px_eval img1_def conv_eval fl_eval cong: eval_cong)

text \<open>
  C1, amended: on an image of width and height at most \<open>2 ^ 24\<close>, for every in-bounds
  target \<open>(x, y)\<close> and binary32 sigmas \<open>s \<ge> 0\<close>, \<open>b \<ge> 0\<close> whose support \<^verbatim>\<open>(int)(s*3)\<close> is at
  most 46340, the clipped window contains the target pixel and the loops return a weight
  sum that is finite and at least 1, so the quantisation does not divide by zero.  The
  bound on the support keeps \<^verbatim>\<open>x+support\<close> and \<^verbatim>\<open>(ys-y)*(ys-y)\<close> within \<^verbatim>\<open>int\<close>; the bound on
  the width keeps the \<^verbatim>\<open>float\<close> column counter exact.
\<close>

theorem weight_sum_at_least_one:
  assumes "exp_like ex"
    and "round32 \<sigma> = Fin \<sigma>" "0 \<le> \<sigma>"
    and "float_to_int (fp_mul round32 (Fin \<sigma>) (int_to_float 3)) = Inr S" "S \<le> 46340"
    and "round32 \<beta> = Fin \<beta>" "0 \<le> \<beta>"
    and "0 \<le> x" "x < width imagein" "width imagein \<le> 2 ^ 24"
    and "0 \<le> y" "y < height imagein" "height imagein \<le> 2 ^ 24"
  shows "\<exists>win final W.
           window imagein x y (Fin \<sigma>) = Inr win
           \<and> win_x1 win \<le> x \<and> x \<le> win_x2 win \<and> win_y1 win \<le> y \<and> y \<le> win_y2 win
           \<and> windowSums ex imagein x y (Fin \<sigma>) (Fin \<beta>) = Some (Inr (final, Fin W)) \<and> 1 \<le> W"
proof -
  from window_ok[OF assms(3,4,5) assms(8-13)] obtain win where
    "window imagein x y (Fin \<sigma>) = Inr win"
    "win_x1 win \<le> x" "x \<le> win_x2 win" "win_y1 win \<le> y" "y \<le> win_y2 win" by blast
  moreover from windowSums_ok[OF assms] obtain acc where
    "windowSums ex imagein x y (Fin \<sigma>) (Fin \<beta>) = Some (Inr acc)" "sums_ok True acc" by blast
  then have "\<exists>final W. windowSums ex imagein x y (Fin \<sigma>) (Fin \<beta>) = Some (Inr (final, Fin W)) \<and> 1 \<le> W"
    unfolding sums_ok_def by auto
  ultimately show ?thesis by blast
qed

theorem weight_sum_at_least_one_witness:
  "exp_like expf_rn \<and> round32 1 = Fin 1
   \<and> float_to_int (fp_mul round32 (Fin 1) (int_to_float 3)) = Inr 3
   \<and> (\<exists>win final W.
         window img1 0 0 (Fin 1) = Inr win
         \<and> win_x1 win \<le> 0 \<and> 0 \<le> win_x2 win \<and> win_y1 win \<le> 0 \<and> 0 \<le> win_y2 win
         \<and> windowSums expf_rn img1 0 0 (Fin 1) (Fin 1) = Some (Inr (final, Fin W)) \<and> 1 \<le> W)"
  using weight_sum_at_least_one [OF exp_like_expf_rn round32_1 _ support_of_1 _ round32_1, of 0 img1 0]
  by (simp add: exp_like_expf_rn support_of_1 img1_def)

text \<open>
  C7, as stated: for every input and all \<open>s \<ge> 0\<close>, \<open>b \<ge> 0\<close> each output byte comes from a
  value within the range of the 8-bit cast.  It fails where the arithmetic of the window
  is not defined: for \<open>s = 715827840\<close> the support is 2147483520, and at \<open>x = 128\<close> the sum
  \<^verbatim>\<open>x+support\<close> leaves the range of \<^verbatim>\<open>int\<close>; no output is computed.
\<close>

theorem byte_range_undefined_counterexample:
  "bilateralFilterPixel expf_rn row129 128 0 (Fin 715827840) (Fin 1) = Some (Inl IntOverflow)"
  by (simp add: px_eval row129_def conv_eval fl_eval cong: eval_cong)

text \<open>
  C7, amended: on an image of width and height at most \<open>2 ^ 24\<close>, for every in-bounds
  target and binary32 sigmas \<open>s \<ge> 0\<close>, \<open>b \<ge> 0\<close> whose support \<^verbatim>\<open>(int)(s*3)\<close> is at most 46340,
  the pixel filter returns, and for each channel the value \<^verbatim>\<open>255*final[k]/weights\<close> is a
  finite \<open>q\<close> with \<open>0 \<le> q < 256\<close>, so that the cast to \<^verbatim>\<open>uint8_t\<close> is defined and gives the
  byte \<open>\<lfloor>q\<rfloor>\<close> in \<open>[0, 255]\<close>.
\<close>

theorem output_in_byte_range:
  assumes "exp_like ex"
    and "round32 \<sigma> = Fin \<sigma>" "0 \<le> \<sigma>"
    and "float_to_int (fp_mul round32 (Fin \<sigma>) (int_to_float 3)) = Inr S" "S \<le> 46340"
    and "round32 \<beta> = Fin \<beta>" "0 \<le> \<beta>"
    and "0 \<le> x" "x < width imagein" "width imagein \<le> 2 ^ 24"
    and "0 \<le> y" "y < height imagein" "height imagein \<le> 2 ^ 24"
  shows "\<exists>acc q0 q1 q2.
           windowSums ex imagein x y (Fin \<sigma>) (Fin \<beta>) = Some (Inr acc)
           \<and> fp_div round32 (fp_mul round32 (int_to_float 255) (fst (fst acc))) (snd acc) = Fin q0
           \<and> fp_div round32 (fp_mul round32 (int_to_float 255) (fst (snd (fst acc)))) (snd acc) = Fin q1
           \<and> fp_div round32 (fp_mul round32 (int_to_float 255) (snd (snd (fst acc)))) (snd acc) = Fin q2
           \<and> 0 \<le> q0 \<and> q0 < 256 \<and> 0 \<le> q1 \<and> q1 < 256 \<and> 0 \<le> q2 \<and> q2 < 256
           \<and> bilateralFilterPixel ex imagein x y (Fin \<sigma>) (Fin \<beta>)
               = Some (Inr (word_of_int \<lfloor>q0\<rfloor>, word_of_int \<lfloor>q1\<rfloor>, word_of_int \<lfloor>q2\<rfloor>))"
proof -
  from windowSums_ok[OF assms] obtain acc where
    ws: "windowSums ex imagein x y (Fin \<sigma>) (Fin \<beta>) = Some (Inr acc)" and ok: "sums_ok True acc" by blast
  from ok obtain f0 f1 f2 W where acc: "acc = ((Fin f0, Fin f1, Fin f2), Fin W)"
    and f: "0 \<le> f0" "f0 \<le> W" "0 \<le> f1" "f1 \<le> W" "0 \<le> f2" "f2 \<le> W" and W: "1 \<le> W" "W \<le> 2 ^ 25"
    unfolding sums_ok_def by auto
  from quantize_ok[OF f(1,2) W] obtain q0 where
    q0: "fp_div round32 (fp_mul round32 (int_to_float 255) (Fin f0)) (Fin W) = Fin q0"
        "0 \<le> q0" "q0 < 256" "quantize (Fin f0) (Fin W) = Inr (word_of_int \<lfloor>q0\<rfloor>)" by blast
  from quantize_ok[OF f(3,4) W] obtain q1 where
    q1: "fp_div round32 (fp_mul round32 (int_to_float 255) (Fin f1)) (Fin W) = Fin q1"
        "0 \<le> q1" "q1 < 256" "quantize (Fin f1) (Fin W) = Inr (word_of_int \<lfloor>q1\<rfloor>)" by blast
  from quantize_ok[OF f(5,6) W] obtain q2 where
    q2: "fp_div round32 (fp_mul round32 (int_to_float 255) (Fin f2)) (Fin W) = Fin q2"
        "0 \<le> q2" "q2 < 256" "quantize (Fin f2) (Fin W) = Inr (word_of_int \<lfloor>q2\<rfloor>)" by blast
  have "bilateralFilterPixel ex imagein x y (Fin \<sigma>) (Fin \<beta>)
          = Some (Inr (word_of_int \<lfloor>q0\<rfloor>, word_of_int \<lfloor>q1\<rfloor>, word_of_int \<lfloor>q2\<rfloor>))"
    by (simp add: bilateralFilterPixel_def ws acc quantize3_def q0(4) q1(4) q2(4) bind_err_def)
  with ws q0 q1 q2 show ?thesis unfolding acc by (intro exI[of _ acc] exI[of _ q0] exI[of _ q1] exI[of _ q2]) (simp add: acc)
qed

theorem output_in_byte_range_witness:
  "exp_like expf_rn \<and> round32 1 = Fin 1
   \<and> float_to_int (fp_mul round32 (Fin 1) (int_to_float 3)) = Inr 3
   \<and> (\<exists>o0 o1 o2. bilateralFilterPixel expf_rn img1 0 0 (Fin 1) (Fin 1) = Some (Inr (o0, o1, o2))
         \<and> unat o0 \<le> 255 \<and> unat o1 \<le> 255 \<and> unat o2 \<le> 255)"
proof -
  from output_in_byte_range [OF exp_like_expf_rn round32_1 _ support_of_1 _ round32_1, of 0 img1 0]
  obtain o0 o1 o2 where "bilateralFilterPixel expf_rn img1 0 0 (Fin 1) (Fin 1) = Some (Inr (o0, o1, o2))"
    by (auto simp: img1_def)
  moreover have "unat o0 \<le> 255" "unat o1 \<le> 255" "unat o2 \<le> 255"
    using unsigned_less[of o0, where 'a = nat] unsigned_less[of o1, where 'a = nat]
      unsigned_less[of o2, where 'a = nat] by simp_all
  ultimately show ?thesis
    using exp_like_expf_rn support_of_1 by auto
qed

text \<open>
  C5, as stated: for every 1x1 image and all \<open>s \<ge> 0\<close>, \<open>b \<ge> 0\<close> the output pixel equals the
  input pixel.  It fails where the support \<^verbatim>\<open>(int)(s*3)\<close> is not defined: for \<open>s = 10\<^sup>9\<close> no
  output is computed.
\<close>

theorem single_pixel_undefined_counterexample:
  "bilateralFilterPixel expf_rn img1 0 0 (Fin 1000000000) (Fin 0) = Some (Inl FloatToInt)"
  by (simp add: px_eval img1_def conv_eval fl_eval cong: eval_cong)

text \<open>
  C5, amended: for every 1x1 image and binary32 sigmas \<open>s \<ge> 0\<close>, \<open>b \<ge> 0\<close> for which the
  support \<^verbatim>\<open>(int)(s*3)\<close> is defined (the product is below \<open>2 ^ 31\<close>), the output pixel
  equals the input pixel in all three channels, whenever \<^verbatim>\<open>exp\<close> returns 1 at 0.
\<close>

theorem single_pixel_image_fixed:
  assumes "ex (Fin 0) = Fin 1"
    and "width imagein = 1" "height imagein = 1"
    and "round32 \<sigma> = Fin \<sigma>" "0 \<le> \<sigma>"
    and "float_to_int (fp_mul round32 (Fin \<sigma>) (int_to_float 3)) = Inr S"
    and "round32 \<beta> = Fin \<beta>" "0 \<le> \<beta>"
  shows "bilateralFilterPixel ex imagein 0 0 (Fin \<sigma>) (Fin \<beta>)
           = Some (Inr (data imagein 0 0 0, data imagein 0 0 1, data imagein 0 0 2))"
proof -
  have w: "window imagein 0 0 (Fin \<sigma>) = Inr \<lparr>win_x1 = 0, win_x2 = 0, win_y1 = 0, win_y2 = 0\<rparr>"
    by (rule single_pixel_window[OF assms(5,6,2,3)])
  define I1 where "I1 = (fp_div round32 (int_to_float (uint (data imagein 0 0 0))) (Fin 255),
                         fp_div round32 (int_to_float (uint (data imagein 0 0 1))) (Fin 255),
                         fp_div round32 (int_to_float (uint (data imagein 0 0 2))) (Fin 255))"
  have g: "getColor01 imagein 0 0 = Inr I1"
    using assms(2,3) by (simp add: getColor01_def I1_def)
  have "windowSums ex imagein 0 0 (Fin \<sigma>) (Fin \<beta>) = Some (Inr (I1, Fin 1))"
    by (rule single_pixel_sums) (use assms w g in simp_all)
  then show ?thesis
    by (simp add: bilateralFilterPixel_def quantize3_def I1_def quantize_roundtrip bind_err_def)
qed

theorem single_pixel_image_fixed_witness:
  "expf_rn (Fin 0) = Fin 1 \<and> width img1 = 1 \<and> height img1 = 1 \<and> round32 1 = Fin 1
   \<and> float_to_int (fp_mul round32 (Fin 1) (int_to_float 3)) = Inr 3
   \<and> bilateralFilterPixel expf_rn img1 0 0 (Fin 1) (Fin 1) = Some (Inr (10, 20, 30))"
proof -
  have e: "expf_rn (Fin 0) = Fin 1" by (simp add: expf_rn_def)
  have d: "width img1 = 1" "height img1 = 1" by (simp_all add: img1_def)
  from single_pixel_image_fixed [where ex = expf_rn, OF e d round32_1 _ support_of_1 round32_1]
  show ?thesis using e d support_of_1 by (simp add: img1_def)
qed


text \<open>
  C4: for \<open>s = 0\<close> and \<open>b = 0\<close> the pixel filter averages the single target pixel with
  weight 1.  The code breaks this on an image wider than \<open>2 ^ 24\<close>, through the same
  \<^verbatim>\<open>float\<close> column counter as in C2: on a row of 16777218 pixels, at \<open>x = 16777217\<close>, the
  counter starts at 16777216, reads that column instead of the target, and \<^verbatim>\<open>xs++\<close> leaves
  it at 16777216 for ever: the pixel filter never returns.
\<close>

theorem float_counter_never_returns:
  "bilateralFilterPixel expf_rn wide_b 16777217 0 (Fin 0) (Fin 0) = None"
proof -
  have w: "window wide_b 16777217 0 (Fin 0)
             = Inr \<lparr>win_x1 = 16777217, win_x2 = 16777217, win_y1 = 0, win_y2 = 0\<rparr>"
    by (simp add: window_def wide_b_def conv_eval fl_eval cong: eval_cong)
  have g: "getColor01 wide_b 16777217 0 = Inr (Fin 0, Fin 0, Fin 0)"
    by (simp add: getColor01_def wide_b_def conv_eval fl_eval)
  have f: "int_to_float 16777217 = Fin 16777216"
    by (simp add: conv_eval fl_eval)
  have "xloop expf_rn wide_b 16777217 0 (Fin 0) (Fin 0) (Fin 0, Fin 0, Fin 0) 16777217 0 0
          ((Fin 0, Fin 0, Fin 0), Fin 0) (Fin 16777216) = None"
  proof (rule ccontr)
    assume "xloop expf_rn wide_b 16777217 0 (Fin 0) (Fin 0) (Fin 0, Fin 0, Fin 0) 16777217 0 0
          ((Fin 0, Fin 0, Fin 0), Fin 0) (Fin 16777216) \<noteq> None"
    then obtain r where "xloop expf_rn wide_b 16777217 0 (Fin 0) (Fin 0) (Fin 0, Fin 0, Fin 0) 16777217 0 0
          ((Fin 0, Fin 0, Fin 0), Fin 0) (Fin 16777216) = Some r" by auto
    from xloop_stuck[OF this] show False by simp
  qed
  then show ?thesis
    by (simp add: bilateralFilterPixel_def windowSums_def w g f)
qed

section \<open>The repetition driver\<close>

text \<open>
  C10: for every \<open>reps \<le> 0\<close> the repetition loop of \<^verbatim>\<open>filterImage\<close> never runs its body:
  the call returns with the input image and the output image as they were and with no
  file written; the value is not rejected.
\<close>

theorem filterImage_no_reps:
  "reps params \<le> 0 \<Longrightarrow> filterImage ex imagein imageout params = Some (Inr (imagein, imageout, []))"
  by (simp add: filterImage_def reploop_done)

theorem filterImage_no_reps_witness:
  "reps (params0\<lparr>reps := 0\<rparr>) \<le> 0
   \<and> filterImage expf_rn img1 img1 (params0\<lparr>reps := 0\<rparr>) = Some (Inr (img1, img1, []))"
  using filterImage_no_reps [of "params0\<lparr>reps := 0\<rparr>" expf_rn img1 img1]
  by (simp add: params0_def)

text \<open>
  C8: the result of \<^verbatim>\<open>filterImage\<close> is the same for any two values of \<^verbatim>\<open>nthreads\<close>, the
  images and the other parameters being equal: the driver never reads the field.
\<close>

theorem filterImage_nthreads:
  "filterImage ex imagein imageout (params\<lparr>nthreads := n\<rparr>)
     = filterImage ex imagein imageout (params\<lparr>nthreads := m\<rparr>)"
  by (simp add: filterImage_def)

text \<open>
  C9: a run of \<^verbatim>\<open>filterImage\<close> with \<open>reps = 1\<close> that returns leaves the input image as it
  was before the call, and writes no intermediate file: the copy into the input image is
  made after a repetition that is not the last one only.
\<close>

theorem filterImage_single_rep:
  assumes "reps params = 1"
    and "filterImage ex imagein imageout params = Some (Inr (imagein', imageout', files))"
  shows "imagein' = imagein \<and> files = []"
  using assms by (simp add: filterImage_def reploop_last split: option.splits sum.splits)

theorem filterImage_single_rep_witness:
  "reps params0 = 1
   \<and> (\<exists>imageout'. filterImage expf_rn img1 img1 params0 = Some (Inr (img1, imageout', [])))"
proof -
  have r: "reps params0 = 1"
    by (simp add: params0_def)
  obtain i out f where run: "filterImage expf_rn img1 img1 params0 = Some (Inr (i, out, f))"
    by (simp add: drv_eval px_eval params0_def img1_def conv_eval fl_eval cong: eval_cong)
  from filterImage_single_rep [OF r run] run r show ?thesis
    by simp
qed



end
